theory Spec2Isabelle
  imports Main
begin

section \<open>Python string primitives used by validate\_efr32\_sdk\_paths.py\<close>

text \<open>
  Python strings are modelled as \<^typ>\<open>string\<close>; a character stands for one code point
  below 256. The functions keep the names of the \<open>str\<close> methods they embed, with the
  receiver as first argument: \<open>s.startswith(p)\<close> is \<open>startswith s p\<close>, \<open>p in s\<close> is
  \<open>isin p s\<close>.
\<close>

fun startswith :: "string \<Rightarrow> string \<Rightarrow> bool" where
  "startswith s [] = True"
| "startswith [] (p # ps) = False"
| "startswith (c # cs) (p # ps) = (c = p \<and> startswith cs ps)"

definition endswith :: "string \<Rightarrow> string \<Rightarrow> bool" where
  "endswith s p = startswith (rev s) (rev p)"

fun isin :: "string \<Rightarrow> string \<Rightarrow> bool" where
  "isin p [] = (p = [])"
| "isin p (c # cs) = (startswith (c # cs) p \<or> isin p cs)"

text \<open>\<open>s.replace(old, new, 1)\<close>: the leftmost occurrence of \<open>old\<close> is replaced.\<close>

fun replace_first :: "string \<Rightarrow> string \<Rightarrow> string \<Rightarrow> string" where
  "replace_first old new [] = (if old = [] then new else [])"
| "replace_first old new (c # cs) =
     (if startswith (c # cs) old then new @ drop (length old) (c # cs)
      else c # replace_first old new cs)"

text \<open>
  \<open>s.replace(old, new)\<close>: the occurrences of \<open>old\<close> are replaced from left to right
  without overlap. For an empty \<open>old\<close> Python puts \<open>new\<close> before every character and at
  the end.
\<close>

function str_replace :: "string \<Rightarrow> string \<Rightarrow> string \<Rightarrow> string" where
  "str_replace old new [] = (if old = [] then new else [])"
| "str_replace old new (c # cs) =
     (if old = [] then new @ c # str_replace old new cs
      else if startswith (c # cs) old
        then new @ str_replace old new (drop (length old) (c # cs))
      else c # str_replace old new cs)"
  by pat_completeness auto
termination
  by (relation "measure (\<lambda>(old, new, s). length s)") auto

text \<open>\<open>s.split(sep)[0]\<close> for a non-empty \<open>sep\<close>: the text before its first occurrence.\<close>

fun split_head :: "string \<Rightarrow> string \<Rightarrow> string" where
  "split_head sep [] = []"
| "split_head sep (c # cs) =
     (if startswith (c # cs) sep then [] else c # split_head sep cs)"

text \<open>\<open>s.split(d)\<close> for a separator of one character.\<close>

fun split_char :: "char \<Rightarrow> string \<Rightarrow> string list" where
  "split_char d [] = [[]]"
| "split_char d (c # cs) =
     (if c = d then [] # split_char d cs
      else (case split_char d cs of
              [] \<Rightarrow> [[c]]
            | l # ls \<Rightarrow> (c # l) # ls))"

text \<open>The characters \<open>str.strip()\<close> removes, among the code points below 256.\<close>

definition is_space :: "char \<Rightarrow> bool" where
  "is_space c =
     (let n = (of_char c :: nat)
      in (9 \<le> n \<and> n \<le> 13) \<or> (28 \<le> n \<and> n \<le> 32) \<or> n = 133 \<or> n = 160)"

definition rstrip_with :: "(char \<Rightarrow> bool) \<Rightarrow> string \<Rightarrow> string" where
  "rstrip_with P s = rev (dropWhile P (rev s))"

definition strip :: "string \<Rightarrow> string" where
  "strip s = rstrip_with is_space (dropWhile is_space s)"

definition rstrip_comma :: "string \<Rightarrow> string" where
  "rstrip_comma s = rstrip_with (\<lambda>c. c = CHR '','') s"

section \<open>resolve\_path\<close>

text \<open>
  The regular expression \<open>\$\{([^}]+)\}\<close> at the head of a string: it matches when the
  string starts with \<open>${\<close>, the next character is not \<open>}\<close>, and a \<open>}\<close> follows later;
  group 1 is the text up to the first \<open>}\<close>.
\<close>

definition placeholder_at :: "string \<Rightarrow> string option" where
  "placeholder_at s =
     (if startswith s ''${'' then
        (let rest = drop 2 s; key = takeWhile (\<lambda>c. c \<noteq> CHR ''}'') rest
         in if key \<noteq> [] \<and> key \<noteq> rest then Some key else None)
      else None)"

text \<open>\<open>re.search\<close> with that pattern: group 1 of the leftmost match.\<close>

fun re_search :: "string \<Rightarrow> string option" where
  "re_search [] = None"
| "re_search (c # cs) =
     (case placeholder_at (c # cs) of
        Some key \<Rightarrow> Some key
      | None \<Rightarrow> re_search cs)"

text \<open>Group 0 of a match whose group 1 is \<open>key\<close>.\<close>

definition group0 :: "string \<Rightarrow> string" where
  "group0 key = ''${'' @ key @ ''}''"

text \<open>
  The \<open>while\<close> loop of \<open>resolve_path\<close>, with \<open>max_iter\<close> as the recursion argument.
  The first component is the working string \<open>out\<close> when the loop is left, or \<open>None\<close>
  for the \<open>return None\<close> inside the loop; the second component counts the iterations
  that were entered.
\<close>

fun resolve_loop :: "(string \<rightharpoonup> string) \<Rightarrow> nat \<Rightarrow> string \<Rightarrow> string option \<times> nat" where
  "resolve_loop vars_dict 0 out = (Some out, 0)"
| "resolve_loop vars_dict (Suc max_iter) out =
     (if isin ''${'' out then
        (case re_search out of
           None \<Rightarrow> (Some out, 1)
         | Some key \<Rightarrow>
             (case vars_dict key of
                None \<Rightarrow> (None, 1)
              | Some v \<Rightarrow>
                  (let (r, k) = resolve_loop vars_dict max_iter (replace_first (group0 key) v out)
                   in (r, Suc k))))
      else (Some out, 0))"

definition resolve_path :: "string \<Rightarrow> (string \<rightharpoonup> string) \<Rightarrow> string option" where
  "resolve_path expr vars_dict =
     (case fst (resolve_loop vars_dict 20 expr) of
        None \<Rightarrow> None
      | Some out \<Rightarrow> if isin ''${'' out then None else Some (str_replace ''//'' ''/'' out))"

section \<open>extract\_path\_expressions\<close>

text \<open>
  The pattern \<open>"(\$\{[^}]+\}[^"]*)"\<close> at the head of a string: an opening double
  quote, \<open>${\<close>, a non-empty name up to the first \<open>}\<close>, then everything up to the next
  double quote. The result is group 1 and the text after the closing quote, where
  \<open>finditer\<close> goes on.
\<close>

definition quoted_at :: "string \<Rightarrow> (string \<times> string) option" where
  "quoted_at s =
     (if startswith s (CHR 0x22 # ''${'') then
        (let rest = drop 3 s;
             key = takeWhile (\<lambda>c. c \<noteq> CHR ''}'') rest;
             r1 = dropWhile (\<lambda>c. c \<noteq> CHR ''}'') rest
         in if key = [] \<or> r1 = [] then None
            else
              (let r2 = tl r1;
                   body = takeWhile (\<lambda>c. c \<noteq> CHR 0x22) r2;
                   r3 = dropWhile (\<lambda>c. c \<noteq> CHR 0x22) r2
               in if r3 = [] then None
                  else Some (''${'' @ key @ ''}'' @ body, tl r3)))
      else None)"

lemma quoted_at_shorter: "quoted_at s = Some (g, rest) \<Longrightarrow> length rest < length s"
proof -
  assume a: "quoted_at s = Some (g, rest)"
  define r0 where "r0 = drop 3 s"
  define r2 where "r2 = tl (dropWhile (\<lambda>c. c \<noteq> CHR ''}'') r0)"
  define r3 where "r3 = dropWhile (\<lambda>c. c \<noteq> CHR 0x22) r2"
  from a have "rest = tl r3" and "r3 \<noteq> []"
    by (auto simp: quoted_at_def Let_def r0_def r2_def r3_def split: if_splits)
  then have "length rest < length r3" by (cases r3) auto
  also have "length r3 \<le> length r2"
    unfolding r3_def by (rule length_dropWhile_le)
  also have "length r2 \<le> length (dropWhile (\<lambda>c. c \<noteq> CHR ''}'') r0)"
    unfolding r2_def by simp
  also have "\<dots> \<le> length r0" by (rule length_dropWhile_le)
  also have "\<dots> \<le> length s" unfolding r0_def by simp
  finally show ?thesis .
qed

text \<open>\<open>pattern.finditer(line)\<close>: group 1 of the matches, from left to right without overlap.\<close>

function finditer :: "string \<Rightarrow> string list" where
  "finditer [] = []"
| "finditer (c # cs) =
     (case quoted_at (c # cs) of
        Some (g, rest) \<Rightarrow> g # finditer rest
      | None \<Rightarrow> finditer cs)"
  by pat_completeness auto
termination
  by (relation "measure length") (auto dest: quoted_at_shorter)

text \<open>Lines 103 to 105: cut at the first \<open>//\<close>, strip blanks and commas, drop a last quote.\<close>

definition clean_raw :: "string \<Rightarrow> string" where
  "clean_raw g =
     (let raw = strip (rstrip_comma (strip (split_head ''//'' g)))
      in if endswith raw [CHR 0x22] then butlast raw else raw)"

text \<open>Lines 106 to 110: the test that decides whether \<open>raw\<close> is appended.\<close>

definition keep_raw :: "string \<Rightarrow> bool" where
  "keep_raw raw =
     (isin ''${'' raw \<and> (isin ''/'' raw \<or> endswith raw ''}'')
      \<and> \<not> isin '':'' raw \<and> \<not> endswith (strip raw) ''.gni'')"

text \<open>Lines 93 to 98: the context after looking at a line.\<close>

definition next_context :: "string \<Rightarrow> string \<Rightarrow> string" where
  "next_context context line =
     (if isin ''include_dirs'' line \<or> isin ''_include_dirs'' line then ''include_dir''
      else if isin ''libs +='' line \<or> isin ''libs ='' line then ''lib''
      else if isin ''sources'' line \<and> (isin ''sources +='' line \<or> isin ''sources ='' line)
        then ''source''
      else context)"

definition line_candidates :: "string \<Rightarrow> string list" where
  "line_candidates line = filter keep_raw (map clean_raw (finditer line))"

fun extract_lines :: "string \<Rightarrow> string list \<Rightarrow> (string \<times> string) list" where
  "extract_lines context [] = []"
| "extract_lines context (line # lines) =
     (let context' = next_context context line
      in map (\<lambda>raw. (raw, context')) (line_candidates line) @ extract_lines context' lines)"

definition extract_path_expressions :: "string \<Rightarrow> (string \<times> string) list" where
  "extract_path_expressions content = extract_lines ''source'' (split_char (CHR 0x0A) content)"

section \<open>is\_file\_path and validate\_path\<close>

definition LIB_EXT :: string where
  "LIB_EXT = ''.a''"

definition SOURCE_EXTENSIONS :: "string list" where
  "SOURCE_EXTENSIONS = [''.c'', ''.cpp'', ''.h'', ''.S'', ''.hpp'']"

definition is_file_path :: "string \<Rightarrow> string \<Rightarrow> bool" where
  "is_file_path path_str context =
     (if context = ''include_dir'' then False
      else if context = ''lib'' then True
      else if context = ''source'' then
        endswith path_str LIB_EXT \<or> list_ex (endswith path_str) SOURCE_EXTENSIONS
      else endswith path_str LIB_EXT \<or> list_ex (endswith path_str) SOURCE_EXTENSIONS)"

text \<open>
  What \<open>Path.exists\<close>, \<open>Path.is_dir\<close> and \<open>Path.is_file\<close> report of a path, symbolic
  links followed: nothing, a regular file, a directory, or an entry of another kind
  (a device, a socket), which exists and is neither a file nor a directory.
\<close>

datatype entry = Absent | RegularFile | Directory | Special

type_synonym filesystem = "string \<Rightarrow> entry"

text \<open>
  Lines 194 to 196: an absolute path is taken as it is, any other is joined with
  \<open>base_path\<close>. The file system is a function of the path's text; what \<open>pathlib\<close> does
  to that text beyond the join is not modelled.
\<close>

definition full_path :: "string \<Rightarrow> string \<Rightarrow> string" where
  "full_path base_path resolved =
     (if startswith resolved ''/'' then resolved else base_path @ ''/'' @ resolved)"

definition validate_path :: "filesystem \<Rightarrow> string \<Rightarrow> string \<Rightarrow> string \<Rightarrow> bool \<times> string" where
  "validate_path fs resolved context base_path =
     (let p = full_path base_path resolved;
          expect_file = is_file_path resolved context
      in if fs p \<noteq> Absent then
           (if expect_file \<and> fs p = Directory then
              (False, ''expected file, found directory: '' @ p)
            else if \<not> expect_file \<and> fs p = RegularFile then
              (False, ''expected directory, found file: '' @ p)
            else (True, []))
         else (False, ''missing: '' @ p))"

section \<open>run\_gni\_validation\<close>

text \<open>The arguments of \<open>run_gni_validation\<close> but \<open>content\<close>, and the file system it reads.\<close>

record 'c env =
  fs :: filesystem
  base_vars :: "string \<rightharpoonup> string"
  board_combos :: "'c list"
  board_var_substrings :: "string list"
  get_board_vars :: "'c \<Rightarrow> (string \<rightharpoonup> string)"
  chip_root :: string
  skip_slc_gen :: bool
  skip_conditional :: bool

text \<open>The local variables of \<open>run_gni_validation\<close> that the loop over the expressions updates.\<close>

record run_state =
  missing :: "(string \<times> string \<times> string) list"
  conditional_skipped :: nat
  unresolved :: nat
  checked :: nat
  seen :: "(string \<times> string) set"

definition init_state :: run_state where
  "init_state = \<lparr>missing = [], conditional_skipped = 0, unresolved = 0, checked = 0, seen = {}\<rparr>"

text \<open>
  Lines 244 to 254, the loop over \<open>board_combos\<close>. The state is
  \<open>(any_ok, resolved_cond, checked, unresolved)\<close>; both \<open>break\<close>s end the recursion.
\<close>

fun board_loop ::
  "'c env \<Rightarrow> string \<Rightarrow> string \<Rightarrow> 'c list \<Rightarrow> bool \<times> string option \<times> nat \<times> nat
     \<Rightarrow> bool \<times> string option \<times> nat \<times> nat" where
  "board_loop e raw_expr context [] st = st"
| "board_loop e raw_expr context (combo # combos) (any_ok, resolved_cond, chk, unres) =
     (let vars_with_board = base_vars e ++ get_board_vars e combo
      in case resolve_path raw_expr vars_with_board of
           None \<Rightarrow> (any_ok, None, chk, unres + 1)
         | Some r \<Rightarrow>
             (if fst (validate_path (fs e) r context (chip_root e))
              then (True, Some r, chk + 1, unres)
              else board_loop e raw_expr context combos (any_ok, Some r, chk + 1, unres)))"

definition has_board_var :: "'c env \<Rightarrow> string \<Rightarrow> bool" where
  "has_board_var e raw_expr = list_ex (\<lambda>s. isin s raw_expr) (board_var_substrings e)"

definition slc_gen_skipped :: "'c env \<Rightarrow> string \<Rightarrow> bool" where
  "slc_gen_skipped e raw_expr =
     (skip_slc_gen e \<and> isin ''${slc_gen_path}'' raw_expr \<and> isin ''slc_gen'' raw_expr)"

text \<open>Lines 229 to 266: the body of the loop over the extracted expressions.\<close>

definition process_expr :: "'c env \<Rightarrow> run_state \<Rightarrow> string \<times> string \<Rightarrow> run_state" where
  "process_expr e st0 x =
     (case x of (raw_expr, context) \<Rightarrow>
        if (raw_expr, context) \<in> seen st0 then st0
        else
          (let st = st0\<lparr>seen := insert (raw_expr, context) (seen st0)\<rparr>
           in if slc_gen_skipped e raw_expr then
                st\<lparr>conditional_skipped := conditional_skipped st + 1\<rparr>
              else if has_board_var e raw_expr then
                (if skip_conditional e then
                   st\<lparr>conditional_skipped := conditional_skipped st + 1\<rparr>
                 else
                   (case board_loop e raw_expr context (board_combos e)
                           (False, None, checked st, unresolved st) of
                      (any_ok, resolved_cond, chk, unres) \<Rightarrow>
                        (let st' = st\<lparr>checked := chk, unresolved := unres\<rparr>
                         in if \<not> any_ok \<and> resolved_cond \<noteq> None then
                              st'\<lparr>missing := missing st' @
                                 [(raw_expr, context, ''(missing for all board combinations)'')]\<rparr>
                            else st')))
              else
                (case resolve_path raw_expr (base_vars e) of
                   None \<Rightarrow> st\<lparr>unresolved := unresolved st + 1\<rparr>
                 | Some resolved \<Rightarrow>
                     (let st' = st\<lparr>checked := checked st + 1\<rparr>;
                          (ok, msg) = validate_path (fs e) resolved context (chip_root e)
                      in if \<not> ok then
                           st'\<lparr>missing := missing st' @ [(raw_expr, context, msg)]\<rparr>
                         else st'))))"

definition run_loop :: "'c env \<Rightarrow> (string \<times> string) list \<Rightarrow> run_state" where
  "run_loop e expressions = foldl (process_expr e) init_state expressions"

definition run_gni_validation ::
  "'c env \<Rightarrow> string \<Rightarrow> (string \<times> string \<times> string) list \<times> nat \<times> nat \<times> nat" where
  "run_gni_validation e content =
     (let st = run_loop e (extract_path_expressions content)
      in (missing st, checked st, unresolved st, conditional_skipped st))"

section \<open>main\<close>

text \<open>
  The ways \<open>main\<close> ends. \<open>parser.parse_args()\<close> at line 329 ends the process itself:
  with status 0 after \<open>--help\<close>, with status 2 on a command line it rejects. An exception
  that nothing catches ends the process with status 1. Otherwise the status is the value
  \<open>main\<close> returns.
\<close>

datatype parse_outcome = Help | Usage_Error | Parsed

text \<open>
  A build-description file: \<open>exists()\<close> is false, or the file exists and \<open>read_text()\<close>
  raises (a directory, no permission, bytes that do not decode), or \<open>read_text()\<close>
  returns its text.
\<close>

datatype file_state = No_File | Unreadable | File_Text string

text \<open>
  The parts of \<open>main\<close> where another exception can be raised: lines 331 to 399
  (resolving the roots, reading \<open>sdk_paths.gni\<close>, listing the board-support tree, the
  test of \<open>gni_path\<close>), lines 404 to 418 (the file system queries of the first run),
  lines 421 to 445 (the test of \<open>SiWx917_sdk.gni\<close> and the listing of its boards), lines
  447 to 461 (the second run), and lines 467 to 507 (printing and writing the report
  files).
\<close>

datatype stage = Setup | Validation | Siwx917_Setup | Siwx917_Validation | Report

text \<open>
  What \<open>main\<close> depends on: what \<open>parse_args\<close> does with the command line, the parts in
  which an exception is raised when control gets there, the two build-description
  files, whether \<open>wifi_sdk_root\<close> is set, the flag \<open>--no-siwx917\<close>, and the arguments of
  the two calls of \<open>run_gni_validation\<close>, which \<open>main\<close> builds from the command line and
  the directory tree. What is printed and written is left out.
\<close>

record main_input =
  command_line :: parse_outcome
  raises :: "stage \<Rightarrow> bool"
  gni_file :: file_state
  siwx917_gni_file :: file_state
  wifi_sdk_root_set :: bool
  no_siwx917 :: bool
  efr32_env :: "(string \<times> string \<times> string) env"
  siwx917_env :: "string env"

text \<open>
  The exit status of the process and the accumulators of \<open>main\<close> (lines 393 to 396) at
  the moment it ends.
\<close>

record main_report =
  status :: int
  all_missing :: "(string \<times> string \<times> string \<times> string) list"
  total_checked :: nat
  total_unresolved :: nat
  total_conditional_skipped :: nat

definition tag_missing ::
  "string \<Rightarrow> (string \<times> string \<times> string) list \<Rightarrow> (string \<times> string \<times> string \<times> string) list" where
  "tag_missing gni_name ms = map (\<lambda>(raw, ctx, msg). (gni_name, raw, ctx, msg)) ms"

text \<open>The process ends with nothing extracted or validated.\<close>

definition aborted :: "int \<Rightarrow> main_report" where
  "aborted st =
     \<lparr>status = st, all_missing = [], total_checked = 0, total_unresolved = 0,
      total_conditional_skipped = 0\<rparr>"

text \<open>Lines 414 to 418 and 457 to 461: the result of a run is added to the accumulators.\<close>

definition add_run ::
  "string \<Rightarrow> (string \<times> string \<times> string) list \<times> nat \<times> nat \<times> nat \<Rightarrow> main_report \<Rightarrow> main_report" where
  "add_run gni_name res r =
     (case res of (ms, chk, unres, skp) \<Rightarrow>
        r\<lparr>all_missing := all_missing r @ tag_missing gni_name ms,
          total_checked := total_checked r + chk,
          total_unresolved := total_unresolved r + unres,
          total_conditional_skipped := total_conditional_skipped r + skp\<rparr>)"

text \<open>Lines 467 to 508: the report, then \<open>return 1\<close> or \<open>return 0\<close>.\<close>

definition finish :: "main_input \<Rightarrow> main_report \<Rightarrow> main_report" where
  "finish i r =
     (if raises i Report then r\<lparr>status := 1\<rparr>
      else r\<lparr>status := (if all_missing r \<noteq> [] then 1 else 0)\<rparr>)"

definition main :: "main_input \<Rightarrow> main_report" where
  "main i =
     (case command_line i of
        Help \<Rightarrow> aborted 0
      | Usage_Error \<Rightarrow> aborted 2
      | Parsed \<Rightarrow>
          if raises i Setup then aborted 1
          else
            (case gni_file i of
               No_File \<Rightarrow> aborted 1
             | Unreadable \<Rightarrow> aborted 1
             | File_Text content \<Rightarrow>
                 if raises i Validation then aborted 1
                 else
                   (let r1 = add_run ''efr32_sdk.gni''
                               (run_gni_validation (efr32_env i) content) (aborted 0)
                    in if \<not> no_siwx917 i \<and> wifi_sdk_root_set i then
                         (if raises i Siwx917_Setup then r1\<lparr>status := 1\<rparr>
                          else
                            (case siwx917_gni_file i of
                               No_File \<Rightarrow> finish i r1
                             | Unreadable \<Rightarrow> r1\<lparr>status := 1\<rparr>
                             | File_Text siwx917_content \<Rightarrow>
                                 if raises i Siwx917_Validation then r1\<lparr>status := 1\<rparr>
                                 else finish i
                                        (add_run ''SiWx917_sdk.gni''
                                           (run_gni_validation (siwx917_env i) siwx917_content)
                                           r1)))
                       else finish i r1)))"

section \<open>Notions the properties are stated with\<close>

text \<open>
  The extractor in the words of its description. \<open>marker_context\<close> is the context a
  marker line sets, \<open>context_from c0 ls\<close> the context set by the most recent marker line
  among \<open>ls\<close>, or \<open>c0\<close> when none of them is a marker line, and \<open>extract_spec\<close> pairs
  the candidates of each line, in order, with the context in force at that line.
\<close>

definition marker_context :: "string \<Rightarrow> string option" where
  "marker_context line =
     (if isin ''include_dirs'' line \<or> isin ''_include_dirs'' line then Some ''include_dir''
      else if isin ''libs +='' line \<or> isin ''libs ='' line then Some ''lib''
      else if isin ''sources'' line \<and> (isin ''sources +='' line \<or> isin ''sources ='' line)
        then Some ''source''
      else None)"

definition context_from :: "string \<Rightarrow> string list \<Rightarrow> string" where
  "context_from c0 ls =
     (case List.map_filter marker_context (rev ls) of
        [] \<Rightarrow> c0
      | c # _ \<Rightarrow> c)"

definition extract_spec :: "string \<Rightarrow> (string \<times> string) list" where
  "extract_spec content =
     (let ls = split_char (CHR 0x0A) content
      in concat (map (\<lambda>i. map (\<lambda>raw. (raw, context_from ''source'' (take (Suc i) ls)))
                              (line_candidates (ls ! i)))
                     [0..<length ls]))"

text \<open>
  The two things the loop over the board combinations computes for a combination: the
  resolution of the expression under the base bindings overlaid with those of the
  combination, and whether the resolved path validates. \<open>combo_fails\<close> holds of a
  combination that resolves to a path that does not validate.
\<close>

definition combo_resolved :: "'c env \<Rightarrow> string \<Rightarrow> 'c \<Rightarrow> string option" where
  "combo_resolved e raw_expr combo =
     resolve_path raw_expr (base_vars e ++ get_board_vars e combo)"

definition combo_ok :: "'c env \<Rightarrow> string \<Rightarrow> string \<Rightarrow> 'c \<Rightarrow> bool" where
  "combo_ok e raw_expr context combo =
     (case combo_resolved e raw_expr combo of
        None \<Rightarrow> False
      | Some r \<Rightarrow> fst (validate_path (fs e) r context (chip_root e)))"

definition combo_fails :: "'c env \<Rightarrow> string \<Rightarrow> string \<Rightarrow> 'c \<Rightarrow> bool" where
  "combo_fails e raw_expr context combo =
     (combo_resolved e raw_expr combo \<noteq> None \<and> \<not> combo_ok e raw_expr context combo)"

section \<open>Sample inputs\<close>

text \<open>A quoted string literal of the build-description file, for the examples.\<close>

definition dq :: "string \<Rightarrow> string" where
  "dq s = CHR 0x22 # s @ [CHR 0x22]"

definition sample_gni :: string where
  "sample_gni =
     dq ''${a}/x.c'' @ [CHR 0x0A]
     @ ''libs += ['' @ dq ''${a}/l.a'' @ '', '' @ dq ''${a}/l.a'' @ '', '' @ dq ''${a}:t''
     @ '', '' @ dq ''${a}/x.gni'' @ [CHR 0x0A]
     @ dq ''${b}''"

definition sample_fs :: filesystem where
  "sample_fs p =
     (if p = ''/r/lib/x.a'' then Directory
      else if p = ''/r/inc'' then RegularFile
      else if p = ''/r/slc/B0/x'' then Directory
      else if p = ''/r/b/B2'' then Directory
      else Absent)"

definition sample_board_vars :: "string \<Rightarrow> (string \<rightharpoonup> string)" where
  "sample_board_vars b =
     (if b = ''B3'' then [''silabs_board'' \<mapsto> b, ''slc_gen_path'' \<mapsto> ''/r/slc/'' @ b]
      else [''silabs_board'' \<mapsto> b, ''silabs_mcu'' \<mapsto> ''m'', ''slc_gen_path'' \<mapsto> ''/r/slc/'' @ b])"

definition sample_env :: "string env" where
  "sample_env =
     \<lparr>fs = sample_fs, base_vars = [''chip_root'' \<mapsto> ''/r''],
      board_combos = [''B0'', ''B2'', ''B3''],
      board_var_substrings = [''${silabs_board}'', ''${silabs_mcu}'', ''${slc_gen_path}''],
      get_board_vars = sample_board_vars, chip_root = ''/r'',
      skip_slc_gen = False, skip_conditional = False\<rparr>"

definition sample_dup_gni :: string where
  "sample_dup_gni = ''include_dirs = ['' @ dq ''${chip_root}/inc'' @ '', '' @ dq ''${chip_root}/inc'' @ '']''"

definition sample_efr32_env :: "(string \<times> string \<times> string) env" where
  "sample_efr32_env =
     \<lparr>fs = sample_fs, base_vars = [''chip_root'' \<mapsto> ''/r''],
      board_combos = [(''efr32mg24'', ''BRD4187A'', ''EFR32MG24B310F1536IM48'')],
      board_var_substrings = [''${silabs_family}'', ''${silabs_board}'', ''${silabs_mcu}''],
      get_board_vars = (\<lambda>(family, board, mcu).
         [''silabs_family'' \<mapsto> family, ''silabs_board'' \<mapsto> board, ''silabs_mcu'' \<mapsto> mcu]),
      chip_root = ''/r'', skip_slc_gen = False, skip_conditional = True\<rparr>"

definition sample_input :: "parse_outcome \<Rightarrow> file_state \<Rightarrow> main_input" where
  "sample_input p f =
     \<lparr>command_line = p, raises = (\<lambda>s. False), gni_file = f, siwx917_gni_file = No_File,
      wifi_sdk_root_set = False, no_siwx917 = False,
      efr32_env = sample_efr32_env, siwx917_env = sample_env\<rparr>"

definition sample_unresolved_gni :: string where
  "sample_unresolved_gni = dq ''${nowhere}/x.c'' @ '', '' @ dq ''${chip_root}/${silabs_board}''"

section \<open>Facts about the string primitives\<close>

lemma startswith_iff: "startswith s p \<longleftrightarrow> (\<exists>t. s = p @ t)"
  by (induction s p rule: startswith.induct) auto

lemma startswith_append: "startswith (p @ t) p"
  by (simp add: startswith_iff)

lemma endswith_iff: "endswith s p \<longleftrightarrow> (\<exists>a. s = a @ p)"
proof -
  have "(\<exists>t. rev s = rev p @ t) \<longleftrightarrow> (\<exists>a. s = a @ p)"
  proof
    assume "\<exists>t. rev s = rev p @ t"
    then obtain t where "rev s = rev p @ t" by blast
    then have "rev (rev s) = rev (rev p @ t)" by simp
    then have "s = rev t @ p" by simp
    then show "\<exists>a. s = a @ p" by blast
  next
    assume "\<exists>a. s = a @ p"
    then obtain a where "s = a @ p" by blast
    then have "rev s = rev p @ rev a" by simp
    then show "\<exists>t. rev s = rev p @ t" by blast
  qed
  then show ?thesis by (simp add: endswith_def startswith_iff)
qed

lemma isin_iff: "isin p s \<longleftrightarrow> (\<exists>a b. s = a @ p @ b)"
proof (induction s)
  case Nil
  show ?case by auto
next
  case (Cons c cs)
  show ?case
  proof
    assume "isin p (c # cs)"
    then consider "startswith (c # cs) p" | "isin p cs" by auto
    then show "\<exists>a b. c # cs = a @ p @ b"
    proof cases
      case 1
      then obtain t where "c # cs = p @ t" by (auto simp: startswith_iff)
      then have "c # cs = [] @ p @ t" by simp
      then show ?thesis by blast
    next
      case 2
      with Cons.IH obtain a b where "cs = a @ p @ b" by blast
      then have "c # cs = (c # a) @ p @ b" by simp
      then show ?thesis by blast
    qed
  next
    assume "\<exists>a b. c # cs = a @ p @ b"
    then obtain a b where ab: "c # cs = a @ p @ b" by blast
    show "isin p (c # cs)"
    proof (cases a)
      case Nil
      with ab have "startswith (c # cs) p" by (simp add: startswith_iff)
      then show ?thesis by simp
    next
      case (Cons a0 as)
      with ab have "cs = as @ p @ b" by simp
      with Cons.IH have "isin p cs" by blast
      then show ?thesis by simp
    qed
  qed
qed

lemma isin_append_left: "isin p s \<Longrightarrow> isin p (a @ s)"
proof -
  assume "isin p s"
  then obtain x y where "s = x @ p @ y" by (auto simp: isin_iff)
  then have "a @ s = (a @ x) @ p @ y" by simp
  then show ?thesis unfolding isin_iff by blast
qed

lemma isin_append_right: "isin p s \<Longrightarrow> isin p (s @ b)"
proof -
  assume "isin p s"
  then obtain x y where "s = x @ p @ y" by (auto simp: isin_iff)
  then have "s @ b = x @ p @ (y @ b)" by simp
  then show ?thesis unfolding isin_iff by blast
qed

lemma isin_dropWhile: "isin p (dropWhile P s) \<Longrightarrow> isin p s"
  using isin_append_left [of p "dropWhile P s" "takeWhile P s"] by simp

lemma isin_rstrip_with: "isin p (rstrip_with P s) \<Longrightarrow> isin p s"
proof -
  assume a: "isin p (rstrip_with P s)"
  have "rev (rev s) = rev (takeWhile P (rev s) @ dropWhile P (rev s))"
    by (simp only: takeWhile_dropWhile_id)
  then have "s = rstrip_with P s @ rev (takeWhile P (rev s))"
    by (simp only: rev_rev_ident rev_append rstrip_with_def)
  with isin_append_right [OF a, of "rev (takeWhile P (rev s))"] show ?thesis by simp
qed

lemma isin_strip: "isin p (strip s) \<Longrightarrow> isin p s"
  unfolding strip_def by (blast dest: isin_rstrip_with isin_dropWhile)

lemma isin_butlast: "isin p (butlast s) \<Longrightarrow> isin p s"
proof (cases "s = []")
  case True
  then show "isin p (butlast s) \<Longrightarrow> isin p s" by simp
next
  case False
  then have "s = butlast s @ [last s]" by simp
  then show "isin p (butlast s) \<Longrightarrow> isin p s"
    using isin_append_right [of p "butlast s" "[last s]"] by simp
qed

lemma split_head_prefix: "\<exists>r. s = split_head sep s @ r"
  by (induction s) auto

lemma split_head_free: "sep \<noteq> [] \<Longrightarrow> \<not> isin sep (split_head sep s)"
proof (induction s)
  case Nil
  then show ?case by simp
next
  case (Cons c cs)
  show ?case
  proof (cases "startswith (c # cs) sep")
    case True
    with Cons.prems show ?thesis by simp
  next
    case False
    obtain r where r: "cs = split_head sep cs @ r"
      using split_head_prefix by blast
    have "\<not> startswith (c # split_head sep cs) sep"
    proof
      assume "startswith (c # split_head sep cs) sep"
      then obtain t where "c # split_head sep cs = sep @ t" by (auto simp: startswith_iff)
      then have "c # cs = sep @ (t @ r)" using r by (metis append_Cons append_assoc)
      then have "startswith (c # cs) sep" unfolding startswith_iff by blast
      with False show False by simp
    qed
    with False Cons.IH [OF Cons.prems] show ?thesis by simp
  qed
qed

lemma strip_keeps_gni: "endswith raw ''.gni'' \<Longrightarrow> endswith (strip raw) ''.gni''"
proof -
  assume "endswith raw ''.gni''"
  then obtain a where a: "raw = a @ ''.gni''" by (auto simp: endswith_iff)
  have d: "dropWhile is_space raw = dropWhile is_space a @ ''.gni''"
    unfolding a by (simp add: dropWhile_append is_space_def)
  have "strip raw = dropWhile is_space a @ ''.gni''"
    unfolding strip_def d rstrip_with_def by (simp add: is_space_def)
  then show ?thesis unfolding endswith_iff by blast
qed

lemma takeWhile_stops:
  "takeWhile P xs \<noteq> xs \<Longrightarrow> \<exists>y ys. xs = takeWhile P xs @ y # ys \<and> \<not> P y"
proof -
  assume a: "takeWhile P xs \<noteq> xs"
  have "dropWhile P xs \<noteq> []"
  proof
    assume "dropWhile P xs = []"
    then have "takeWhile P xs @ [] = xs" by (metis takeWhile_dropWhile_id)
    with a show False by simp
  qed
  then obtain y ys where d: "dropWhile P xs = y # ys" by (cases "dropWhile P xs") auto
  then have "\<not> P y" by (metis hd_dropWhile list.sel(1) list.distinct(1))
  moreover have "xs = takeWhile P xs @ y # ys" using d by (metis takeWhile_dropWhile_id)
  ultimately show ?thesis by blast
qed

lemma takeWhile_upto: "x \<notin> set key \<Longrightarrow> takeWhile (\<lambda>c. c \<noteq> x) (key @ x # post) = key"
  by (induction key) auto

lemma str_replace_slashes_pair:
  "str_replace ''//'' ''/'' (CHR ''/'' # CHR ''/'' # rest) = CHR ''/'' # str_replace ''//'' ''/'' rest"
  by simp

lemma str_replace_slashes_other:
  "\<not> startswith (c # cs) ''//'' \<Longrightarrow>
     str_replace ''//'' ''/'' (c # cs) = c # str_replace ''//'' ''/'' cs"
  by auto

lemma startswith_slashes: "startswith s ''//'' \<Longrightarrow> \<exists>rest. s = CHR ''/'' # CHR ''/'' # rest"
  by (auto simp: startswith_iff)

lemma str_replace_slashes_head:
  "\<exists>t. str_replace ''//'' ''/'' (c # cs) = c # t"
proof (cases "startswith (c # cs) ''//''")
  case True
  then obtain rest where "c # cs = CHR ''/'' # CHR ''/'' # rest"
    using startswith_slashes by blast
  then show ?thesis using str_replace_slashes_pair by auto
next
  case False
  then show ?thesis using str_replace_slashes_other by blast
qed

lemma str_replace_slashes_no_placeholder:
  "\<not> isin ''${'' s \<Longrightarrow> \<not> isin ''${'' (str_replace ''//'' ''/'' s)"
proof (induction s rule: length_induct)
  case (1 s)
  show ?case
  proof (cases s)
    case Nil
    then show ?thesis by simp
  next
    case (Cons c cs)
    show ?thesis
    proof (cases "startswith (c # cs) ''//''")
      case True
      then obtain rest where r: "c # cs = CHR ''/'' # CHR ''/'' # rest"
        using startswith_slashes by blast
      have "\<not> isin ''${'' rest"
        using "1.prems" Cons r isin_append_left [of "''${''" rest "''//''"] by auto
      moreover have "length rest < length s" using Cons r by auto
      ultimately have "\<not> isin ''${'' (str_replace ''//'' ''/'' rest)"
        using "1.IH" by blast
      then have "\<not> isin ''${'' (CHR ''/'' # str_replace ''//'' ''/'' rest)" by simp
      then show ?thesis unfolding Cons r str_replace_slashes_pair .
    next
      case False
      from "1.prems" Cons have ns: "\<not> startswith (c # cs) ''${''" and nc: "\<not> isin ''${'' cs"
        by auto
      have "length cs < length s" using Cons by simp
      with nc "1.IH" have ih: "\<not> isin ''${'' (str_replace ''//'' ''/'' cs)" by blast
      have "\<not> startswith (c # str_replace ''//'' ''/'' cs) ''${''"
      proof (cases cs)
        case Nil
        then show ?thesis by simp
      next
        case (Cons d ds)
        obtain t where "str_replace ''//'' ''/'' (d # ds) = d # t"
          using str_replace_slashes_head by blast
        with ns Cons show ?thesis by simp
      qed
      with ih have "\<not> isin ''${'' (c # str_replace ''//'' ''/'' cs)" by simp
      then show ?thesis unfolding Cons str_replace_slashes_other [OF False] .
    qed
  qed
qed

lemma str_replace_absent: "\<not> isin old s \<Longrightarrow> old \<noteq> [] \<Longrightarrow> str_replace old new s = s"
  by (induction s) auto

lemma str_replace_slashes_length:
  "length (str_replace ''//'' ''/'' s) \<le> length s
   \<and> (isin ''//'' s \<longrightarrow> length (str_replace ''//'' ''/'' s) < length s)"
proof (induction s rule: length_induct)
  case (1 s)
  show ?case
  proof (cases s)
    case Nil
    then show ?thesis by simp
  next
    case (Cons c cs)
    show ?thesis
    proof (cases "startswith (c # cs) ''//''")
      case True
      then obtain rest where r: "c # cs = CHR ''/'' # CHR ''/'' # rest"
        using startswith_slashes by blast
      have "length rest < length s" using Cons r by auto
      with "1.IH" have "length (str_replace ''//'' ''/'' rest) \<le> length rest" by blast
      then have "length (CHR ''/'' # str_replace ''//'' ''/'' rest)
                   < length (CHR ''/'' # CHR ''/'' # rest)"
        by simp
      then show ?thesis unfolding Cons r str_replace_slashes_pair by simp
    next
      case False
      have "length cs < length s" using Cons by simp
      with "1.IH" have ih: "length (str_replace ''//'' ''/'' cs) \<le> length cs
         \<and> (isin ''//'' cs \<longrightarrow> length (str_replace ''//'' ''/'' cs) < length cs)"
        by blast
      have "isin ''//'' (c # cs) \<longrightarrow> isin ''//'' cs" using False by auto
      with ih have "length (c # str_replace ''//'' ''/'' cs) \<le> length (c # cs)
         \<and> (isin ''//'' (c # cs) \<longrightarrow> length (c # str_replace ''//'' ''/'' cs) < length (c # cs))"
        by simp
      then show ?thesis unfolding Cons str_replace_slashes_other [OF False] .
    qed
  qed
qed

lemma str_replace_slashes_starts:
  "startswith (str_replace ''//'' ''/'' s) ''/'' \<longleftrightarrow> startswith s ''/''"
proof (cases s)
  case Nil
  then show ?thesis by simp
next
  case (Cons d ds)
  obtain t where "str_replace ''//'' ''/'' (d # ds) = d # t"
    using str_replace_slashes_head by blast
  with Cons show ?thesis by simp
qed

lemma str_replace_slashes_triple:
  "isin ''//'' (str_replace ''//'' ''/'' s) \<longleftrightarrow> isin ''///'' s"
proof (induction s rule: length_induct)
  case (1 s)
  show ?case
  proof (cases s)
    case Nil
    then show ?thesis by simp
  next
    case (Cons c cs)
    show ?thesis
    proof (cases "startswith (c # cs) ''//''")
      case True
      then obtain rest where r: "c # cs = CHR ''/'' # CHR ''/'' # rest"
        using startswith_slashes by blast
      have "length rest < length s" using Cons r by auto
      with "1.IH" have ih: "isin ''//'' (str_replace ''//'' ''/'' rest) \<longleftrightarrow> isin ''///'' rest"
        by blast
      have a: "isin ''//'' (CHR ''/'' # str_replace ''//'' ''/'' rest)
                 \<longleftrightarrow> startswith rest ''/'' \<or> isin ''///'' rest"
        using ih str_replace_slashes_starts [of rest] by simp
      have b: "isin ''///'' (CHR ''/'' # CHR ''/'' # rest)
                 \<longleftrightarrow> startswith rest ''/'' \<or> isin ''///'' rest"
        by (cases rest) auto
      show ?thesis unfolding Cons r str_replace_slashes_pair a b ..
    next
      case False
      have "length cs < length s" using Cons by simp
      with "1.IH" have ih: "isin ''//'' (str_replace ''//'' ''/'' cs) \<longleftrightarrow> isin ''///'' cs"
        by blast
      have n1: "\<not> startswith (c # str_replace ''//'' ''/'' cs) ''//''"
        using False str_replace_slashes_starts [of cs] by auto
      have n2: "\<not> startswith (c # cs) ''///''"
        using False by (auto simp: startswith_iff)
      have "isin ''//'' (c # str_replace ''//'' ''/'' cs) \<longleftrightarrow> isin ''///'' (c # cs)"
        using ih n1 n2 by auto
      then show ?thesis unfolding Cons str_replace_slashes_other [OF False] .
    qed
  qed
qed

section \<open>Facts about the resolver\<close>

lemma placeholder_at_iff:
  "placeholder_at t = Some key \<longleftrightarrow>
     key \<noteq> [] \<and> CHR ''}'' \<notin> set key \<and> (\<exists>post. t = group0 key @ post)"
proof
  assume a: "placeholder_at t = Some key"
  then have sw: "startswith t ''${''" by (auto simp: placeholder_at_def split: if_splits)
  then obtain rest where t: "t = ''${'' @ rest" by (auto simp: startswith_iff)
  then have r: "drop 2 t = rest" by simp
  from a sw r have k: "key = takeWhile (\<lambda>c. c \<noteq> CHR ''}'') rest" and ne: "key \<noteq> []"
    and nr: "key \<noteq> rest"
    by (auto simp: placeholder_at_def Let_def split: if_splits)
  from nr k obtain y ys where "rest = key @ y # ys" and "\<not> y \<noteq> CHR ''}''"
    using takeWhile_stops [of "\<lambda>c. c \<noteq> CHR ''}''" rest] by auto
  then have "t = group0 key @ ys" using t by (simp add: group0_def)
  moreover have "CHR ''}'' \<notin> set key" unfolding k by (auto dest: set_takeWhileD)
  ultimately show "key \<noteq> [] \<and> CHR ''}'' \<notin> set key \<and> (\<exists>post. t = group0 key @ post)"
    using ne by blast
next
  assume "key \<noteq> [] \<and> CHR ''}'' \<notin> set key \<and> (\<exists>post. t = group0 key @ post)"
  then obtain post where ne: "key \<noteq> []" and nb: "CHR ''}'' \<notin> set key"
    and t: "t = group0 key @ post" by blast
  have tw: "takeWhile (\<lambda>c. c \<noteq> CHR ''}'') (key @ CHR ''}'' # post) = key"
    using nb by (rule takeWhile_upto)
  show "placeholder_at t = Some key"
    unfolding t placeholder_at_def group0_def using ne tw by (simp add: Let_def)
qed

lemma re_search_Some:
  "re_search s = Some key \<Longrightarrow>
     \<exists>pre post. s = pre @ group0 key @ post \<and> key \<noteq> [] \<and> CHR ''}'' \<notin> set key
        \<and> (\<forall>n < length pre. placeholder_at (drop n s) = None)"
proof (induction s)
  case Nil
  then show ?case by simp
next
  case (Cons c cs)
  show ?case
  proof (cases "placeholder_at (c # cs)")
    case (Some k)
    with Cons.prems have "k = key" by simp
    with Some obtain post where "c # cs = [] @ group0 key @ post" and "key \<noteq> []"
      and "CHR ''}'' \<notin> set key"
      by (auto simp: placeholder_at_iff)
    then show ?thesis by (metis length_0_conv list.size(3) not_less_zero)
  next
    case None
    with Cons.prems have "re_search cs = Some key" by simp
    from Cons.IH [OF this] obtain pre post where cs: "cs = pre @ group0 key @ post"
      and k: "key \<noteq> []" "CHR ''}'' \<notin> set key"
      and nm: "\<forall>n < length pre. placeholder_at (drop n cs) = None"
      by blast
    have "\<forall>n < length (c # pre). placeholder_at (drop n (c # cs)) = None"
    proof (intro allI impI)
      fix n assume "n < length (c # pre)"
      then show "placeholder_at (drop n (c # cs)) = None"
        using None nm by (cases n) auto
    qed
    moreover have "c # cs = (c # pre) @ group0 key @ post" using cs by simp
    ultimately show ?thesis using k by blast
  qed
qed

lemma replace_first_at:
  "key \<noteq> [] \<Longrightarrow> CHR ''}'' \<notin> set key \<Longrightarrow>
   \<forall>n < length pre. placeholder_at (drop n (pre @ group0 key @ post)) = None \<Longrightarrow>
   replace_first (group0 key) v (pre @ group0 key @ post) = pre @ v @ post"
proof (induction pre)
  case Nil
  have "group0 key @ post = CHR ''$'' # (CHR ''{'' # key @ ''}'' @ post)"
    by (simp add: group0_def)
  moreover have "startswith (group0 key @ post) (group0 key)" by (rule startswith_append)
  ultimately show ?case
    by (metis append_Nil append_eq_conv_conj replace_first.simps(2))
next
  case (Cons c pre)
  from Cons.prems(3) have "placeholder_at (drop 0 ((c # pre) @ group0 key @ post)) = None"
    by (metis length_greater_0_conv list.distinct(1))
  then have "\<not> startswith ((c # pre) @ group0 key @ post) (group0 key)"
    using Cons.prems(1,2) placeholder_at_iff [of "(c # pre) @ group0 key @ post" key]
    by (auto simp: startswith_iff)
  moreover have "\<forall>n < length pre. placeholder_at (drop n (pre @ group0 key @ post)) = None"
  proof (intro allI impI)
    fix n assume "n < length pre"
    then have "Suc n < length (c # pre)" by simp
    with Cons.prems(3) have "placeholder_at (drop (Suc n) ((c # pre) @ group0 key @ post)) = None"
      by blast
    then show "placeholder_at (drop n (pre @ group0 key @ post)) = None" by simp
  qed
  ultimately show ?case using Cons.IH [OF Cons.prems(1,2)] by simp
qed

lemma group0_tail_no_dollar:
  "CHR ''$'' \<notin> set key \<Longrightarrow> 0 < n \<Longrightarrow> n < length (group0 key) \<Longrightarrow> group0 key ! n \<noteq> CHR ''$''"
proof -
  assume k: "CHR ''$'' \<notin> set key" and n: "0 < n" "n < length (group0 key)"
  from n obtain m where m: "n = Suc m" by (cases n) auto
  have g: "group0 key = CHR ''$'' # (CHR ''{'' # key @ ''}'')" by (simp add: group0_def)
  from n m g have "m < length (CHR ''{'' # key @ ''}'')" by simp
  then have "(CHR ''{'' # key @ ''}'') ! m \<in> set (CHR ''{'' # key @ ''}'')"
    by (rule nth_mem)
  with k have "(CHR ''{'' # key @ ''}'') ! m \<noteq> CHR ''$''" by auto
  then show ?thesis unfolding g m by simp
qed

text \<open>
  When the leftmost placeholder names a variable without \<open>$\<close> and another placeholder
  occurs in the string, that occurrence lies after the leftmost placeholder.
\<close>

lemma occurrence_after_match:
  assumes s: "s = pre @ group0 key @ post" and o: "s = x @ group0 b @ y"
    and nm: "\<forall>n < length pre. placeholder_at (drop n s) = None"
    and k: "CHR ''$'' \<notin> set key" and b: "b \<noteq> []" "CHR ''}'' \<notin> set b" and kb: "key \<noteq> b"
    and kk: "key \<noteq> []" "CHR ''}'' \<notin> set key"
  shows "\<exists>x'. post = x' @ group0 b @ y"
proof -
  have pb: "placeholder_at (group0 b @ y) = Some b"
    using b by (auto simp: placeholder_at_iff)
  have le: "length pre \<le> length x"
  proof (rule ccontr)
    assume "\<not> length pre \<le> length x"
    then have "length x < length pre" by simp
    with nm have "placeholder_at (drop (length x) s) = None" by blast
    with pb show False unfolding o by simp
  qed
  define w where "w = drop (length pre) x"
  have x: "x = pre @ w"
  proof -
    have "take (length pre) s = pre" unfolding s by simp
    moreover have "take (length pre) s = take (length pre) x" unfolding o using le by simp
    ultimately show ?thesis unfolding w_def by (metis append_take_drop_id)
  qed
  have eq: "group0 key @ post = w @ group0 b @ y"
    using s o x by simp
  have pk: "placeholder_at (group0 key @ post) = Some key"
    using kk by (auto simp: placeholder_at_iff)
  have wne: "w \<noteq> []"
  proof
    assume "w = []"
    with eq pk pb have "Some key = Some b" by simp
    with kb show False by simp
  qed
  have len: "length (group0 key) \<le> length w"
  proof (rule ccontr)
    assume "\<not> length (group0 key) \<le> length w"
    then have lt: "length w < length (group0 key)" by simp
    have "(group0 key @ post) ! length w = (w @ group0 b @ y) ! length w"
      using eq by simp
    also have "\<dots> = CHR ''$''" by (simp add: group0_def)
    finally have "group0 key ! length w = CHR ''$''" using lt by (simp add: nth_append)
    moreover have "0 < length w" using wne by simp
    ultimately show False using group0_tail_no_dollar [OF k _ lt] by blast
  qed
  have "post = drop (length (group0 key)) (group0 key @ post)" by simp
  also have "\<dots> = drop (length (group0 key)) w @ group0 b @ y"
    unfolding eq using len by simp
  finally show ?thesis by blast
qed

lemma resolve_step_keeps_occurrence:
  assumes o: "out = x @ group0 b @ y" and b: "b \<noteq> []" "CHR ''}'' \<notin> set b"
    and vb: "vars_dict b = None"
    and clean: "\<forall>k. vars_dict k \<noteq> None \<longrightarrow> CHR ''$'' \<notin> set k"
    and rs: "re_search out = Some key" and vk: "vars_dict key = Some v"
  shows "\<exists>x'. replace_first (group0 key) v out = x' @ group0 b @ y"
proof -
  from re_search_Some [OF rs] obtain pre post where s: "out = pre @ group0 key @ post"
    and kk: "key \<noteq> []" "CHR ''}'' \<notin> set key"
    and nm: "\<forall>n < length pre. placeholder_at (drop n out) = None"
    by blast
  from clean vk have k: "CHR ''$'' \<notin> set key" by auto
  from vb vk have kb: "key \<noteq> b" by auto
  from occurrence_after_match [OF s o nm k b kb kk]
  obtain x' where p: "post = x' @ group0 b @ y" by blast
  have "replace_first (group0 key) v out = pre @ v @ post"
    unfolding s using kk nm [unfolded s] by (rule replace_first_at)
  then have "replace_first (group0 key) v out = (pre @ v @ x') @ group0 b @ y"
    using p by simp
  then show ?thesis by blast
qed

lemma isin_group0: "isin ''${'' (x @ group0 b @ y)"
proof -
  have "x @ group0 b @ y = x @ ''${'' @ (b @ ''}'' @ y)" by (simp add: group0_def)
  then show ?thesis unfolding isin_iff by blast
qed

lemma resolve_loop_keeps_occurrence:
  assumes b: "b \<noteq> []" "CHR ''}'' \<notin> set b" and vb: "vars_dict b = None"
    and clean: "\<forall>k. vars_dict k \<noteq> None \<longrightarrow> CHR ''$'' \<notin> set k"
  shows "fst (resolve_loop vars_dict n (x @ group0 b @ y)) = Some out' \<Longrightarrow> isin ''${'' out'"
proof (induction n arbitrary: x out')
  case 0
  then show ?case using isin_group0 [of x b y] by auto
next
  case (Suc n)
  let ?out = "x @ group0 b @ y"
  have i: "isin ''${'' ?out" by (rule isin_group0)
  show ?case
  proof (cases "re_search ?out")
    case None
    with Suc.prems i show ?thesis by simp
  next
    case (Some key)
    show ?thesis
    proof (cases "vars_dict key")
      case None
      with Suc.prems i Some show ?thesis by simp
    next
      case (Some v)
      from resolve_step_keeps_occurrence [OF refl b vb clean \<open>re_search ?out = Some key\<close> Some]
      obtain x' where r: "replace_first (group0 key) v ?out = x' @ group0 b @ y" by blast
      from Suc.prems i \<open>re_search ?out = Some key\<close> Some r
      have "fst (resolve_loop vars_dict n (x' @ group0 b @ y)) = Some out'"
        by (simp add: split_beta)
      then show ?thesis by (rule Suc.IH)
    qed
  qed
qed

lemma resolve_loop_plain: "\<not> isin ''${'' s \<Longrightarrow> resolve_loop vars_dict n s = (Some s, 0)"
  by (cases n) auto

lemma resolve_path_plain:
  "\<not> isin ''${'' s \<Longrightarrow> resolve_path s vars_dict = Some (str_replace ''//'' ''/'' s)"
  by (simp add: resolve_path_def resolve_loop_plain)

lemma resolve_path_Some:
  "resolve_path expr vars_dict = Some r \<Longrightarrow>
     \<exists>out. fst (resolve_loop vars_dict 20 expr) = Some out \<and> \<not> isin ''${'' out
        \<and> r = str_replace ''//'' ''/'' out"
  by (auto simp: resolve_path_def split: option.splits if_splits)

lemma resolve_path_no_placeholder:
  "resolve_path expr vars_dict = Some r \<Longrightarrow> \<not> isin ''${'' r"
proof -
  assume "resolve_path expr vars_dict = Some r"
  then obtain out where "\<not> isin ''${'' out" and "r = str_replace ''//'' ''/'' out"
    using resolve_path_Some by blast
  then show ?thesis by (simp add: str_replace_slashes_no_placeholder)
qed

lemma resolve_loop_iterations: "snd (resolve_loop vars_dict n out) \<le> n"
proof (induction n arbitrary: out)
  case 0
  show ?case by simp
next
  case (Suc n)
  have step: "snd (resolve_loop vars_dict n (replace_first (group0 key) v out)) \<le> n" for key v
    by (rule Suc.IH)
  show ?case
    using step by (simp add: split_beta split: option.splits)
qed

lemma resolve_loop_self_reference:
  "resolve_loop [''x'' \<mapsto> ''${x}''] 20 ''${x}'' = (Some ''${x}'', 20)"
  by code_simp

lemma resolve_loop_sample_slashes:
  "fst (resolve_loop [''chip_root'' \<mapsto> ''/r''] 20 ''${chip_root}/a//b'') = Some ''/r/a//b''
   \<and> \<not> isin ''///'' ''/r/a//b''"
  by code_simp

section \<open>The resolver\<close>

text \<open>
  C2 as stated fails for a binding whose name contains \<open>$\<close>: under the bindings of \<open>a\<close>
  to \<open>${x\<close> and of \<open>x${b\<close> to \<open>ok\<close> the expression \<open>${a}${b}\<close> becomes \<open>${x${b}\<close>, whose
  only placeholder is named \<open>x${b\<close>, and resolves to \<open>ok\<close> although \<open>b\<close> is not bound.
\<close>

theorem resolve_path_absent_counterexample:
  "isin (group0 ''b'') ''${a}${b}''
   \<and> [''a'' \<mapsto> ''${x'', ''x${b'' \<mapsto> ''ok''] ''b'' = None
   \<and> resolve_path ''${a}${b}'' [''a'' \<mapsto> ''${x'', ''x${b'' \<mapsto> ''ok''] = Some ''ok''"
  by code_simp

text \<open>
  C2, as amended. When no bound variable name contains \<open>$\<close> and the expression contains
  \<open>${name}\<close> for a name (not empty, without \<open>}\<close>) that is not bound, \<open>resolve_path\<close>
  returns \<open>None\<close>. The function is total: the dictionary is read only at a name found in
  it. On every input, a result other than \<open>None\<close> contains no \<open>${\<close>.
\<close>

theorem resolve_path_absent:
  "((\<forall>k. vars_dict k \<noteq> None \<longrightarrow> CHR ''$'' \<notin> set k) \<and> name \<noteq> [] \<and> CHR ''}'' \<notin> set name
      \<and> isin (group0 name) expr \<and> vars_dict name = None
      \<longrightarrow> resolve_path expr vars_dict = None)
   \<and> (\<forall>r. resolve_path expr vars_dict = Some r \<longrightarrow> \<not> isin ''${'' r)"
proof (intro conjI impI allI)
  assume a: "(\<forall>k. vars_dict k \<noteq> None \<longrightarrow> CHR ''$'' \<notin> set k) \<and> name \<noteq> [] \<and> CHR ''}'' \<notin> set name
      \<and> isin (group0 name) expr \<and> vars_dict name = None"
  then obtain x y where e: "expr = x @ group0 name @ y" by (auto simp: isin_iff)
  show "resolve_path expr vars_dict = None"
  proof (cases "fst (resolve_loop vars_dict 20 expr)")
    case None
    then show ?thesis by (simp add: resolve_path_def)
  next
    case (Some out)
    then have "isin ''${'' out"
      using a resolve_loop_keeps_occurrence [of name vars_dict 20 x y out] unfolding e by blast
    with Some show ?thesis by (simp add: resolve_path_def)
  qed
next
  fix r assume "resolve_path expr vars_dict = Some r"
  then show "\<not> isin ''${'' r" by (rule resolve_path_no_placeholder)
qed

theorem resolve_path_absent_witness:
  "CHR ''$'' \<notin> set ''chip_root''
   \<and> isin (group0 ''nowhere'') ''${chip_root}/${nowhere}/x''
   \<and> [''chip_root'' \<mapsto> ''/r''] ''nowhere'' = None
   \<and> resolve_path ''${chip_root}/${nowhere}/x'' [''chip_root'' \<mapsto> ''/r''] = None
   \<and> resolve_path ''${chip_root}/a//b'' [''chip_root'' \<mapsto> ''/r''] = Some ''/r/a/b''
   \<and> \<not> isin ''${'' ''/r/a/b''"
proof -
  have h1: "\<forall>k. [''chip_root'' \<mapsto> ''/r''] k \<noteq> None \<longrightarrow> CHR ''$'' \<notin> set k"
    by (auto split: if_splits)
  have h2: "isin (group0 ''nowhere'') ''${chip_root}/${nowhere}/x''"
    by code_simp
  have h3: "[''chip_root'' \<mapsto> ''/r''] ''nowhere'' = None" by simp
  have h4: "''nowhere'' \<noteq> [] \<and> CHR ''}'' \<notin> set ''nowhere''" by simp
  have h5: "resolve_path ''${chip_root}/a//b'' [''chip_root'' \<mapsto> ''/r''] = Some ''/r/a/b''"
    by code_simp
  from resolve_path_absent [of "[''chip_root'' \<mapsto> ''/r'']" "''nowhere''"
      "''${chip_root}/${nowhere}/x''"] h1 h2 h3 h4
  have a: "resolve_path ''${chip_root}/${nowhere}/x'' [''chip_root'' \<mapsto> ''/r''] = None"
    by blast
  from resolve_path_absent [of "[''chip_root'' \<mapsto> ''/r'']" "''nowhere''"
      "''${chip_root}/a//b''"] h5
  have b: "\<not> isin ''${'' ''/r/a/b''" by blast
  have h0: "CHR ''$'' \<notin> set ''chip_root''" by simp
  from h0 h2 h3 h5 a b show ?thesis by blast
qed

text \<open>
  C3 as stated fails when three slashes meet: with \<open>r\<close> bound to \<open>/sdk/\<close> the expression
  \<open>${r}//x\<close> resolves to \<open>/sdk//x\<close>, which has no placeholder, and resolving that string
  again gives \<open>/sdk/x\<close>.
\<close>

theorem resolve_path_again_counterexample:
  "fst (resolve_loop [''r'' \<mapsto> ''/sdk/''] 20 ''${r}//x'') = Some ''/sdk///x''
   \<and> resolve_path ''${r}//x'' [''r'' \<mapsto> ''/sdk/''] = Some ''/sdk//x''
   \<and> \<not> isin ''${'' ''/sdk//x''
   \<and> resolve_path ''/sdk//x'' [''r'' \<mapsto> ''/sdk/''] = Some ''/sdk/x''"
  by code_simp

text \<open>
  C3, as amended. When \<open>resolve_path\<close> succeeds, resolving its result again with the same
  bindings succeeds and replaces the occurrences of \<open>//\<close> left in the result once more;
  it returns the same string exactly when the result contains no \<open>//\<close>, and the result
  contains \<open>//\<close> exactly when three slashes in a row occur in the substituted string,
  the working string that the final \<open>replace\<close> is applied to.
\<close>

theorem resolve_path_again:
  "resolve_path expr vars_dict = Some r \<longrightarrow>
     (\<exists>out. fst (resolve_loop vars_dict 20 expr) = Some out \<and> r = str_replace ''//'' ''/'' out
        \<and> (isin ''//'' r \<longleftrightarrow> isin ''///'' out))
     \<and> resolve_path r vars_dict = Some (str_replace ''//'' ''/'' r)
     \<and> (resolve_path r vars_dict = Some r \<longleftrightarrow> \<not> isin ''//'' r)"
proof
  assume s: "resolve_path expr vars_dict = Some r"
  then obtain out where o: "fst (resolve_loop vars_dict 20 expr) = Some out"
    and ro: "r = str_replace ''//'' ''/'' out"
    using resolve_path_Some by blast
  have t: "isin ''//'' r \<longleftrightarrow> isin ''///'' out"
    unfolding ro by (rule str_replace_slashes_triple)
  from s have "\<not> isin ''${'' r" by (rule resolve_path_no_placeholder)
  then have a: "resolve_path r vars_dict = Some (str_replace ''//'' ''/'' r)"
    by (rule resolve_path_plain)
  have "str_replace ''//'' ''/'' r = r \<longleftrightarrow> \<not> isin ''//'' r"
  proof
    assume "str_replace ''//'' ''/'' r = r"
    then have "\<not> length (str_replace ''//'' ''/'' r) < length r" by simp
    then show "\<not> isin ''//'' r" using str_replace_slashes_length [of r] by blast
  next
    assume "\<not> isin ''//'' r"
    then show "str_replace ''//'' ''/'' r = r" by (simp add: str_replace_absent)
  qed
  with a o ro t show "(\<exists>out. fst (resolve_loop vars_dict 20 expr) = Some out \<and> r = str_replace ''//'' ''/'' out
        \<and> (isin ''//'' r \<longleftrightarrow> isin ''///'' out))
     \<and> resolve_path r vars_dict = Some (str_replace ''//'' ''/'' r)
     \<and> (resolve_path r vars_dict = Some r \<longleftrightarrow> \<not> isin ''//'' r)"
    by auto
qed

theorem resolve_path_again_witness:
  "resolve_path ''${chip_root}/a//b'' [''chip_root'' \<mapsto> ''/r''] = Some ''/r/a/b''
   \<and> fst (resolve_loop [''chip_root'' \<mapsto> ''/r''] 20 ''${chip_root}/a//b'') = Some ''/r/a//b''
   \<and> \<not> isin ''///'' ''/r/a//b''
   \<and> \<not> isin ''//'' ''/r/a/b''
   \<and> resolve_path ''/r/a/b'' [''chip_root'' \<mapsto> ''/r''] = Some ''/r/a/b''"
proof -
  have h: "resolve_path ''${chip_root}/a//b'' [''chip_root'' \<mapsto> ''/r''] = Some ''/r/a/b''"
    by code_simp
  note l = resolve_loop_sample_slashes
  from resolve_path_again [of "''${chip_root}/a//b''" "[''chip_root'' \<mapsto> ''/r'']" "''/r/a/b''"] h
  have t: "(\<exists>out. fst (resolve_loop [''chip_root'' \<mapsto> ''/r''] 20 ''${chip_root}/a//b'') = Some out
              \<and> (isin ''//'' ''/r/a/b'' \<longleftrightarrow> isin ''///'' out))"
    and i: "resolve_path ''/r/a/b'' [''chip_root'' \<mapsto> ''/r''] = Some ''/r/a/b'' \<longleftrightarrow> \<not> isin ''//'' ''/r/a/b''"
    by blast+
  from t l have n: "\<not> isin ''//'' ''/r/a/b''" by auto
  with i have "resolve_path ''/r/a/b'' [''chip_root'' \<mapsto> ''/r''] = Some ''/r/a/b''" by blast
  with h l n show ?thesis by blast
qed

text \<open>
  C8. The loop of \<open>resolve_path\<close> enters at most 20 iterations on every input and then
  returns; when placeholders are left in the working string at that point the result is
  \<open>None\<close>. Under the binding of \<open>x\<close> to \<open>${x}\<close> the expression \<open>${x}\<close> uses all 20
  iterations, is left unchanged, and resolves to \<open>None\<close>.
\<close>

theorem resolve_path_bounded:
  "(\<exists>r k. resolve_loop vars_dict 20 expr = (r, k) \<and> k \<le> 20)
   \<and> (\<forall>out. fst (resolve_loop vars_dict 20 expr) = Some out \<and> isin ''${'' out
         \<longrightarrow> resolve_path expr vars_dict = None)
   \<and> resolve_loop [''x'' \<mapsto> ''${x}''] 20 ''${x}'' = (Some ''${x}'', 20)
   \<and> resolve_path ''${x}'' [''x'' \<mapsto> ''${x}''] = None"
proof -
  have a: "\<exists>r k. resolve_loop vars_dict 20 expr = (r, k) \<and> k \<le> 20"
    using resolve_loop_iterations [of vars_dict 20 expr]
    by (cases "resolve_loop vars_dict 20 expr") simp
  have b: "\<forall>out. fst (resolve_loop vars_dict 20 expr) = Some out \<and> isin ''${'' out
         \<longrightarrow> resolve_path expr vars_dict = None"
    by (simp add: resolve_path_def)
  have c: "resolve_path ''${x}'' [''x'' \<mapsto> ''${x}''] = None"
    unfolding resolve_path_def resolve_loop_self_reference by simp
  from a b c resolve_loop_self_reference show ?thesis by blast
qed

theorem resolve_path_bounded_witness:
  "fst (resolve_loop [''x'' \<mapsto> ''${x}''] 20 ''${x}'') = Some ''${x}''
   \<and> isin ''${'' ''${x}''
   \<and> resolve_path ''${x}'' [''x'' \<mapsto> ''${x}''] = None
   \<and> snd (resolve_loop [''x'' \<mapsto> ''${x}''] 20 ''${x}'') \<le> 20"
proof -
  have h1: "fst (resolve_loop [''x'' \<mapsto> ''${x}''] 20 ''${x}'') = Some ''${x}''"
    by (simp add: resolve_loop_self_reference)
  have h2: "isin ''${'' ''${x}''" by simp
  from resolve_path_bounded [of "[''x'' \<mapsto> ''${x}'']" "''${x}''"]
  have "fst (resolve_loop [''x'' \<mapsto> ''${x}''] 20 ''${x}'') = Some ''${x}'' \<and> isin ''${'' ''${x}''
          \<longrightarrow> resolve_path ''${x}'' [''x'' \<mapsto> ''${x}''] = None"
    and "\<exists>r k. resolve_loop [''x'' \<mapsto> ''${x}''] 20 ''${x}'' = (r, k) \<and> k \<le> 20"
    by blast+
  with h1 h2 show ?thesis by auto
qed

section \<open>The extractor\<close>

lemma isin_clean_raw: "isin p (clean_raw g) \<Longrightarrow> isin p (split_head ''//'' g)"
  unfolding clean_raw_def Let_def rstrip_comma_def
  by (auto dest!: isin_butlast isin_strip isin_rstrip_with split: if_splits)

lemma clean_raw_no_double_slash: "\<not> isin ''//'' (clean_raw g)"
  using isin_clean_raw [of "''//''" g] split_head_free [of "''//''" g] by auto

lemma in_extract_lines:
  "(raw, ctx) \<in> set (extract_lines c0 ls) \<Longrightarrow> \<exists>l \<in> set ls. raw \<in> set (line_candidates l)"
  by (induction ls arbitrary: c0) (auto simp: Let_def)

lemma in_line_candidates:
  "raw \<in> set (line_candidates l) \<Longrightarrow> keep_raw raw \<and> (\<exists>g \<in> set (finditer l). raw = clean_raw g)"
  by (auto simp: line_candidates_def)

lemma keep_raw_excludes: "keep_raw raw \<Longrightarrow> \<not> isin '':'' raw \<and> \<not> endswith raw ''.gni''"
  using strip_keeps_gni [of raw] by (auto simp: keep_raw_def)

lemma next_context_marker:
  "next_context c l = (case marker_context l of None \<Rightarrow> c | Some m \<Rightarrow> m)"
  by (auto simp: next_context_def marker_context_def)

lemma context_from_Nil: "context_from c0 [] = c0"
  by (simp add: context_from_def List.map_filter_def)

lemma context_from_Cons: "context_from c0 (l # ls) = context_from (next_context c0 l) ls"
  by (cases "marker_context l")
     (auto simp: context_from_def next_context_marker List.map_filter_def split: list.splits)

lemma extract_lines_indexed:
  "extract_lines c0 ls =
     concat (map (\<lambda>i. map (\<lambda>raw. (raw, context_from c0 (take (Suc i) ls)))
                          (line_candidates (ls ! i)))
                 [0..<length ls])"
proof (induction ls arbitrary: c0)
  case Nil
  show ?case by simp
next
  case (Cons l ls)
  have "[0..<length (l # ls)] = 0 # map Suc [0..<length ls]"
    by (simp add: upt_conv_Cons map_Suc_upt del: upt_Suc)
  then show ?case
    by (simp add: Cons.IH Let_def context_from_Cons [of c0 l] context_from_Nil comp_def
             del: upt_Suc)
qed

text \<open>
  C6. \<open>extract_path_expressions\<close> gives every emitted expression the context set by the
  most recent marker line at or before its line (\<open>source\<close> before the first marker),
  emits the pairs line by line in the order of the matches and keeps duplicates, and no
  emitted expression contains a colon or ends in \<open>.gni\<close>.
\<close>

theorem extract_context_order:
  "extract_path_expressions content = extract_spec content
   \<and> (\<forall>x \<in> set (extract_path_expressions content).
         \<not> isin '':'' (fst x) \<and> \<not> endswith (fst x) ''.gni'')"
proof
  show "extract_path_expressions content = extract_spec content"
    by (simp add: extract_path_expressions_def extract_spec_def Let_def extract_lines_indexed)
  show "\<forall>x \<in> set (extract_path_expressions content).
          \<not> isin '':'' (fst x) \<and> \<not> endswith (fst x) ''.gni''"
  proof
    fix x assume "x \<in> set (extract_path_expressions content)"
    then have "(fst x, snd x) \<in> set (extract_lines ''source'' (split_char (CHR 0x0A) content))"
      by (simp add: extract_path_expressions_def)
    then obtain l where "fst x \<in> set (line_candidates l)"
      using in_extract_lines by blast
    then have "keep_raw (fst x)"
      using in_line_candidates by blast
    then show "\<not> isin '':'' (fst x) \<and> \<not> endswith (fst x) ''.gni''"
      by (rule keep_raw_excludes)
  qed
qed

lemma extract_sample_gni:
  "extract_path_expressions sample_gni =
     [(''${a}/x.c'', ''source''), (''${a}/l.a'', ''lib''), (''${a}/l.a'', ''lib''), (''${b}'', ''lib'')]"
  by code_simp

theorem extract_context_order_witness:
  "extract_spec sample_gni =
     [(''${a}/x.c'', ''source''), (''${a}/l.a'', ''lib''), (''${a}/l.a'', ''lib''), (''${b}'', ''lib'')]
   \<and> (''${b}'', ''lib'') \<in> set (extract_path_expressions sample_gni)
   \<and> \<not> isin '':'' ''${b}'' \<and> \<not> endswith ''${b}'' ''.gni''"
proof -
  note t = extract_context_order [of sample_gni]
  have m: "(''${b}'', ''lib'') \<in> set (extract_path_expressions sample_gni)"
    by (simp add: extract_sample_gni)
  from t have "extract_spec sample_gni = extract_path_expressions sample_gni"
    by simp
  then have a: "extract_spec sample_gni =
     [(''${a}/x.c'', ''source''), (''${a}/l.a'', ''lib''), (''${a}/l.a'', ''lib''), (''${b}'', ''lib'')]"
    by (simp only: extract_sample_gni)
  from t have "\<forall>x \<in> set (extract_path_expressions sample_gni).
          \<not> isin '':'' (fst x) \<and> \<not> endswith (fst x) ''.gni''"
    by (rule conjunct2)
  from bspec [OF this m] have "\<not> isin '':'' ''${b}'' \<and> \<not> endswith ''${b}'' ''.gni''"
    by simp
  with a m show ?thesis by blast
qed

text \<open>
  C10. No raw expression that \<open>extract_path_expressions\<close> emits contains \<open>//\<close>: each
  quoted candidate is cut at its first \<open>//\<close> before it is tested and appended, so the
  quoted text \<open>${root}//foo\<close> is emitted as \<open>${root}\<close>.
\<close>

theorem extract_no_double_slash:
  "(\<forall>x \<in> set (extract_path_expressions content). \<not> isin ''//'' (fst x))
   \<and> extract_path_expressions (CHR 0x22 # ''${root}//foo'' @ [CHR 0x22]) = [(''${root}'', ''source'')]"
proof
  show "\<forall>x \<in> set (extract_path_expressions content). \<not> isin ''//'' (fst x)"
  proof
    fix x assume "x \<in> set (extract_path_expressions content)"
    then have "(fst x, snd x) \<in> set (extract_lines ''source'' (split_char (CHR 0x0A) content))"
      by (simp add: extract_path_expressions_def)
    then obtain l where "fst x \<in> set (line_candidates l)"
      using in_extract_lines by blast
    then obtain g where "fst x = clean_raw g"
      using in_line_candidates by blast
    then show "\<not> isin ''//'' (fst x)"
      by (simp add: clean_raw_no_double_slash)
  qed
  show "extract_path_expressions (CHR 0x22 # ''${root}//foo'' @ [CHR 0x22]) = [(''${root}'', ''source'')]"
    by code_simp
qed

theorem extract_no_double_slash_witness:
  "(''${a}/b'', ''source'') \<in> set (extract_path_expressions (CHR 0x22 # ''${a}/b//c'' @ [CHR 0x22]))
   \<and> \<not> isin ''//'' ''${a}/b''"
proof -
  have m: "(''${a}/b'', ''source'') \<in> set (extract_path_expressions (CHR 0x22 # ''${a}/b//c'' @ [CHR 0x22]))"
    by code_simp
  from extract_no_double_slash [of "CHR 0x22 # ''${a}/b//c'' @ [CHR 0x22]"]
  have "\<forall>x \<in> set (extract_path_expressions (CHR 0x22 # ''${a}/b//c'' @ [CHR 0x22])). \<not> isin ''//'' (fst x)"
    by (rule conjunct1)
  from bspec [OF this m] have "\<not> isin ''//'' ''${a}/b''" by simp
  with m show ?thesis by (rule conjI)
qed

section \<open>The path validator\<close>

text \<open>
  C5. \<open>is_file_path\<close> expects a file in the \<open>lib\<close> context, a directory in the
  \<open>include_dir\<close> context, and in the \<open>source\<close> context a file exactly when the path
  ends in \<open>.a\<close>, \<open>.c\<close>, \<open>.cpp\<close>, \<open>.h\<close>, \<open>.S\<close> or \<open>.hpp\<close>. A directory where a file
  is expected and a regular file where a directory is expected are failures whose
  message does not start with \<open>missing\<close>, the message of an absent path; a \<open>lib\<close> path
  that is an existing directory gives \<open>expected file, found directory\<close>.
\<close>

theorem validate_path_kind:
  "is_file_path p ''lib''
   \<and> \<not> is_file_path p ''include_dir''
   \<and> (is_file_path p ''source'' \<longleftrightarrow>
        endswith p ''.a'' \<or> endswith p ''.c'' \<or> endswith p ''.cpp'' \<or> endswith p ''.h''
        \<or> endswith p ''.S'' \<or> endswith p ''.hpp'')
   \<and> (is_file_path p context \<and> fsys (full_path base_path p) = Directory \<longrightarrow>
        validate_path fsys p context base_path =
          (False, ''expected file, found directory: '' @ full_path base_path p))
   \<and> (\<not> is_file_path p context \<and> fsys (full_path base_path p) = RegularFile \<longrightarrow>
        validate_path fsys p context base_path =
          (False, ''expected directory, found file: '' @ full_path base_path p))
   \<and> (fsys (full_path base_path p) = Absent \<longrightarrow>
        validate_path fsys p context base_path = (False, ''missing: '' @ full_path base_path p))
   \<and> (fsys (full_path base_path p) \<noteq> Absent \<longrightarrow>
        \<not> startswith (snd (validate_path fsys p context base_path)) ''missing'')
   \<and> (fsys (full_path base_path p) = Directory \<longrightarrow>
        validate_path fsys p ''lib'' base_path =
          (False, ''expected file, found directory: '' @ full_path base_path p))"
  by (simp add: validate_path_def is_file_path_def Let_def LIB_EXT_def SOURCE_EXTENSIONS_def)

theorem validate_path_kind_witness:
  "is_file_path ''lib/x.a'' ''lib'' \<and> sample_fs (full_path ''/r'' ''lib/x.a'') = Directory
   \<and> validate_path sample_fs ''lib/x.a'' ''lib'' ''/r''
        = (False, ''expected file, found directory: /r/lib/x.a'')
   \<and> \<not> startswith (snd (validate_path sample_fs ''lib/x.a'' ''lib'' ''/r'')) ''missing''
   \<and> \<not> is_file_path ''inc'' ''source'' \<and> sample_fs (full_path ''/r'' ''inc'') = RegularFile
   \<and> validate_path sample_fs ''inc'' ''source'' ''/r''
        = (False, ''expected directory, found file: /r/inc'')"
proof -
  have d: "sample_fs (full_path ''/r'' ''lib/x.a'') = Directory"
    by (simp add: sample_fs_def full_path_def)
  have f: "sample_fs (full_path ''/r'' ''inc'') = RegularFile"
    by (simp add: sample_fs_def full_path_def)
  have l: "is_file_path ''lib/x.a'' ''lib''"
    by (simp add: is_file_path_def)
  have s: "\<not> is_file_path ''inc'' ''source''"
    by (simp add: is_file_path_def LIB_EXT_def SOURCE_EXTENSIONS_def endswith_def)
  have p1: "full_path ''/r'' ''lib/x.a'' = ''/r/lib/x.a''" by (simp add: full_path_def)
  have p2: "full_path ''/r'' ''inc'' = ''/r/inc''" by (simp add: full_path_def)
  note t1 = validate_path_kind [of "''lib/x.a''" "''lib''" sample_fs "''/r''"]
  note t2 = validate_path_kind [of "''inc''" "''source''" sample_fs "''/r''"]
  from t1 d l have a1: "validate_path sample_fs ''lib/x.a'' ''lib'' ''/r''
        = (False, ''expected file, found directory: '' @ full_path ''/r'' ''lib/x.a'')"
    by blast
  from t1 d have a2: "\<not> startswith (snd (validate_path sample_fs ''lib/x.a'' ''lib'' ''/r'')) ''missing''"
    by (metis entry.distinct(3))
  from t2 f s have a3: "validate_path sample_fs ''inc'' ''source'' ''/r''
        = (False, ''expected directory, found file: '' @ full_path ''/r'' ''inc'')"
    by blast
  from a1 a2 a3 d f l s show ?thesis unfolding p1 p2 by simp
qed

section \<open>The validation driver\<close>

lemma process_expr_seen_eq: "x \<in> seen st \<Longrightarrow> process_expr e st x = st"
  by (cases x) (simp add: process_expr_def)

lemma seen_process_expr: "seen (process_expr e st x) = insert x (seen st)"
  by (cases x)
     (auto simp: process_expr_def Let_def split_beta split: option.splits prod.splits if_splits)

lemma seen_foldl_process_expr:
  "seen (foldl (process_expr e) st xs) = seen st \<union> set xs"
  by (induction xs arbitrary: st) (auto simp: seen_process_expr)

lemma run_loop_drop_repeated:
  "x \<in> set xs \<Longrightarrow> run_loop e (xs @ x # ys) = run_loop e (xs @ ys)"
proof -
  assume "x \<in> set xs"
  then have "x \<in> seen (foldl (process_expr e) init_state xs)"
    by (simp add: seen_foldl_process_expr)
  then have "process_expr e (foldl (process_expr e) init_state xs) x
               = foldl (process_expr e) init_state xs"
    by (rule process_expr_seen_eq)
  then show ?thesis by (simp add: run_loop_def)
qed

text \<open>
  C4. An expression whose \<open>(raw, context)\<close> pair is already in \<open>seen\<close> leaves the whole
  state of the run as it is, whatever the bindings, the board combinations and the file
  system are; every processed pair is in \<open>seen\<close> afterwards. So a second or later
  occurrence of a pair among the extracted expressions can be deleted without any change
  to the missing list and the three counters that \<open>run_gni_validation\<close> returns.
\<close>

theorem run_gni_validation_dedup:
  "(x \<in> seen st \<longrightarrow> process_expr e st x = st)
   \<and> x \<in> seen (process_expr e st x)
   \<and> (extract_path_expressions content = xs @ x # ys \<and> x \<in> set xs \<longrightarrow>
        run_gni_validation e content =
          (missing (run_loop e (xs @ ys)), checked (run_loop e (xs @ ys)),
           unresolved (run_loop e (xs @ ys)), conditional_skipped (run_loop e (xs @ ys))))"
  by (simp add: process_expr_seen_eq seen_process_expr run_gni_validation_def Let_def
                run_loop_drop_repeated)

lemma extract_sample_dup_gni:
  "extract_path_expressions sample_dup_gni
     = [(''${chip_root}/inc'', ''include_dir'')] @ (''${chip_root}/inc'', ''include_dir'') # []"
  by code_simp

lemma run_loop_sample_once:
  "missing (run_loop sample_env ([(''${chip_root}/inc'', ''include_dir'')] @ []))
     = [(''${chip_root}/inc'', ''include_dir'', ''expected directory, found file: /r/inc'')]
   \<and> checked (run_loop sample_env ([(''${chip_root}/inc'', ''include_dir'')] @ [])) = 1
   \<and> unresolved (run_loop sample_env ([(''${chip_root}/inc'', ''include_dir'')] @ [])) = 0
   \<and> conditional_skipped (run_loop sample_env ([(''${chip_root}/inc'', ''include_dir'')] @ [])) = 0"
  by code_simp

theorem run_gni_validation_dedup_witness:
  "(''${chip_root}/inc'', ''include_dir'')
      \<in> seen (process_expr sample_env init_state (''${chip_root}/inc'', ''include_dir''))
   \<and> process_expr sample_env
        (process_expr sample_env init_state (''${chip_root}/inc'', ''include_dir''))
        (''${chip_root}/inc'', ''include_dir'')
       = process_expr sample_env init_state (''${chip_root}/inc'', ''include_dir'')
   \<and> extract_path_expressions sample_dup_gni
       = [(''${chip_root}/inc'', ''include_dir''), (''${chip_root}/inc'', ''include_dir'')]
   \<and> run_gni_validation sample_env sample_dup_gni
       = ([(''${chip_root}/inc'', ''include_dir'', ''expected directory, found file: /r/inc'')],
          1, 0, 0)"
proof -
  let ?x = "(''${chip_root}/inc'', ''include_dir'')"
  let ?st = "process_expr sample_env init_state ?x"
  from run_gni_validation_dedup [of ?x init_state sample_env]
  have a: "?x \<in> seen ?st" by blast
  from run_gni_validation_dedup [of ?x ?st sample_env] a
  have b: "process_expr sample_env ?st ?x = ?st" by blast
  have m: "?x \<in> set [?x]" by simp
  from run_gni_validation_dedup [of ?x init_state sample_env sample_dup_gni "[?x]" "[]"]
    extract_sample_dup_gni m
  have "run_gni_validation sample_env sample_dup_gni =
          (missing (run_loop sample_env ([?x] @ [])), checked (run_loop sample_env ([?x] @ [])),
           unresolved (run_loop sample_env ([?x] @ [])),
           conditional_skipped (run_loop sample_env ([?x] @ [])))"
    by blast
  then have c: "run_gni_validation sample_env sample_dup_gni
       = ([(''${chip_root}/inc'', ''include_dir'', ''expected directory, found file: /r/inc'')],
          1, 0, 0)"
    by (simp only: run_loop_sample_once)
  from a b c extract_sample_dup_gni show ?thesis by simp
qed

text \<open>
  C9. With the skip-conditional flag set, an expression that contains one of the board
  variable names and has not been seen before adds 1 to \<open>conditional_skipped\<close> and is
  recorded in \<open>seen\<close>; \<open>checked\<close>, \<open>unresolved\<close> and \<open>missing\<close> stay as they are.
\<close>

theorem skip_conditional_frame:
  "skip_conditional e \<and> has_board_var e raw_expr \<and> (raw_expr, context) \<notin> seen st \<longrightarrow>
     process_expr e st (raw_expr, context) =
       st\<lparr>conditional_skipped := conditional_skipped st + 1,
          seen := insert (raw_expr, context) (seen st)\<rparr>"
  by (simp add: process_expr_def Let_def)

theorem skip_conditional_frame_witness:
  "skip_conditional (sample_env\<lparr>skip_conditional := True\<rparr>)
   \<and> has_board_var (sample_env\<lparr>skip_conditional := True\<rparr>) ''${chip_root}/b/${silabs_board}''
   \<and> (''${chip_root}/b/${silabs_board}'', ''include_dir'') \<notin> seen init_state
   \<and> process_expr (sample_env\<lparr>skip_conditional := True\<rparr>) init_state
         (''${chip_root}/b/${silabs_board}'', ''include_dir'')
       = init_state\<lparr>conditional_skipped := 1,
                     seen := {(''${chip_root}/b/${silabs_board}'', ''include_dir'')}\<rparr>"
proof -
  have h: "skip_conditional (sample_env\<lparr>skip_conditional := True\<rparr>)
     \<and> has_board_var (sample_env\<lparr>skip_conditional := True\<rparr>) ''${chip_root}/b/${silabs_board}''
     \<and> (''${chip_root}/b/${silabs_board}'', ''include_dir'') \<notin> seen init_state"
    by (simp add: has_board_var_def sample_env_def init_state_def)
  have s: "seen init_state = {}" "conditional_skipped init_state = 0"
    by (simp_all add: init_state_def)
  from skip_conditional_frame [of "sample_env\<lparr>skip_conditional := True\<rparr>"
      "''${chip_root}/b/${silabs_board}''" "''include_dir''" init_state] h
  have "process_expr (sample_env\<lparr>skip_conditional := True\<rparr>) init_state
         (''${chip_root}/b/${silabs_board}'', ''include_dir'')
       = init_state\<lparr>conditional_skipped := conditional_skipped init_state + 1,
            seen := insert (''${chip_root}/b/${silabs_board}'', ''include_dir'') (seen init_state)\<rparr>"
    by blast
  with h show ?thesis unfolding s by simp
qed

lemma board_loop_failing_prefix:
  "list_all (combo_fails e raw_expr context) pre \<Longrightarrow>
     \<exists>r'. board_loop e raw_expr context (pre @ rest) (a, r, chk, unres)
             = board_loop e raw_expr context rest (a, r', chk + length pre, unres)
          \<and> (pre \<noteq> [] \<longrightarrow> r' \<noteq> None) \<and> (pre = [] \<longrightarrow> r' = r)"
proof (induction pre arbitrary: r chk)
  case Nil
  show ?case by simp
next
  case (Cons c pre)
  from Cons.prems have rest: "list_all (combo_fails e raw_expr context) pre"
    and "combo_fails e raw_expr context c"
    by simp_all
  then obtain p where p: "combo_resolved e raw_expr c = Some p"
    and nok: "\<not> fst (validate_path (fs e) p context (chip_root e))"
    by (auto simp: combo_fails_def combo_ok_def)
  from Cons.IH [OF rest, of "Some p" "chk + 1"]
  obtain r' where r': "board_loop e raw_expr context (pre @ rest) (a, Some p, chk + 1, unres)
             = board_loop e raw_expr context rest (a, r', chk + 1 + length pre, unres)"
    and ne: "pre \<noteq> [] \<longrightarrow> r' \<noteq> None" and em: "pre = [] \<longrightarrow> r' = Some p"
    by blast
  have "board_loop e raw_expr context ((c # pre) @ rest) (a, r, chk, unres)
          = board_loop e raw_expr context rest (a, r', chk + length (c # pre), unres)"
    using p nok r' by (simp add: combo_resolved_def)
  moreover have "r' \<noteq> None" using ne em by (cases "pre = []") auto
  ultimately show ?case by blast
qed

lemma board_loop_success:
  assumes "list_all (combo_fails e raw_expr context) pre"
    and "combo_ok e raw_expr context c"
  shows "\<exists>p. board_loop e raw_expr context (pre @ c # post) (False, None, chk, unres)
            = (True, Some p, chk + length pre + 1, unres)"
proof -
  from board_loop_failing_prefix [OF assms(1), of "c # post" False None chk unres]
  obtain r' where "board_loop e raw_expr context (pre @ c # post) (False, None, chk, unres)
             = board_loop e raw_expr context (c # post) (False, r', chk + length pre, unres)"
    by blast
  moreover from assms(2) obtain p where "combo_resolved e raw_expr c = Some p"
    and "fst (validate_path (fs e) p context (chip_root e))"
    by (auto simp: combo_ok_def split: option.splits)
  ultimately show ?thesis by (simp add: combo_resolved_def)
qed

lemma board_loop_all_fail:
  assumes "list_all (combo_fails e raw_expr context) combos" and "combos \<noteq> []"
  shows "\<exists>p. board_loop e raw_expr context combos (False, None, chk, unres)
            = (False, Some p, chk + length combos, unres)"
proof -
  from board_loop_failing_prefix [OF assms(1), of "[]" False None chk unres] assms(2)
  obtain r' where "board_loop e raw_expr context combos (False, None, chk, unres)
             = (False, r', chk + length combos, unres)" and "r' \<noteq> None"
    by auto
  then show ?thesis by auto
qed

lemma board_loop_unresolved:
  assumes "list_all (combo_fails e raw_expr context) pre"
    and "combo_resolved e raw_expr c = None"
  shows "board_loop e raw_expr context (pre @ c # post) (False, None, chk, unres)
            = (False, None, chk + length pre, unres + 1)"
proof -
  from board_loop_failing_prefix [OF assms(1), of "c # post" False None chk unres]
  obtain r' where "board_loop e raw_expr context (pre @ c # post) (False, None, chk, unres)
             = board_loop e raw_expr context (c # post) (False, r', chk + length pre, unres)"
    by blast
  with assms(2) show ?thesis by (simp add: combo_resolved_def)
qed

lemma process_expr_board:
  assumes "(raw_expr, context) \<notin> seen st" and "has_board_var e raw_expr"
    and "\<not> skip_conditional e" and "\<not> slc_gen_skipped e raw_expr"
    and "board_loop e raw_expr context (board_combos e) (False, None, checked st, unresolved st)
           = (any_ok, resolved_cond, chk, unres)"
  shows "process_expr e st (raw_expr, context) =
     (if \<not> any_ok \<and> resolved_cond \<noteq> None
      then st\<lparr>seen := insert (raw_expr, context) (seen st), checked := chk, unresolved := unres,
              missing := missing st @
                [(raw_expr, context, ''(missing for all board combinations)'')]\<rparr>
      else st\<lparr>seen := insert (raw_expr, context) (seen st), checked := chk, unresolved := unres\<rparr>)"
  using assms by (simp add: process_expr_def Let_def)

lemma sample_second_ok:
  "combo_fails sample_env ''${chip_root}/b/${silabs_board}'' ''include_dir'' ''B0''
   \<and> combo_ok sample_env ''${chip_root}/b/${silabs_board}'' ''include_dir'' ''B2''"
  by code_simp

lemma sample_all_fail:
  "list_all (combo_fails sample_env ''${chip_root}/z/${silabs_board}'' ''include_dir'')
     [''B0'', ''B2'', ''B3'']"
  by code_simp

lemma sample_third_unresolved:
  "list_all (combo_fails sample_env ''${chip_root}/q/${silabs_mcu}'' ''include_dir'') [''B0'', ''B2'']
   \<and> combo_resolved sample_env ''${chip_root}/q/${silabs_mcu}'' ''B3'' = None"
  by code_simp

lemma sample_board_exprs:
  "has_board_var sample_env ''${chip_root}/b/${silabs_board}''
   \<and> has_board_var sample_env ''${chip_root}/z/${silabs_board}''
   \<and> has_board_var sample_env ''${chip_root}/q/${silabs_mcu}''
   \<and> \<not> slc_gen_skipped sample_env r \<and> \<not> skip_conditional sample_env
   \<and> board_combos sample_env = [''B0''] @ ''B2'' # [''B3'']
   \<and> board_combos sample_env = [''B0'', ''B2''] @ ''B3'' # []
   \<and> x \<notin> seen init_state"
  by (simp add: has_board_var_def slc_gen_skipped_def sample_env_def init_state_def)

text \<open>
  C1 as stated fails when the flag \<open>--skip-slc-gen\<close> is set: the expression
  \<open>${slc_gen_path}/x\<close> contains a board variable name, the skip-conditional flag is
  unset, and the first of the three combinations resolves to an existing directory, but
  the run counts the expression as skipped and checks nothing.
\<close>

theorem board_search_counterexample:
  "has_board_var (sample_env\<lparr>skip_slc_gen := True\<rparr>) ''${slc_gen_path}/x''
   \<and> \<not> skip_conditional (sample_env\<lparr>skip_slc_gen := True\<rparr>)
   \<and> board_combos (sample_env\<lparr>skip_slc_gen := True\<rparr>) = [''B0'', ''B2'', ''B3'']
   \<and> combo_ok (sample_env\<lparr>skip_slc_gen := True\<rparr>) ''${slc_gen_path}/x'' ''source'' ''B0''
   \<and> extract_path_expressions (dq ''${slc_gen_path}/x'') = [(''${slc_gen_path}/x'', ''source'')]
   \<and> run_gni_validation (sample_env\<lparr>skip_slc_gen := True\<rparr>) (dq ''${slc_gen_path}/x'') = ([], 0, 0, 1)
   \<and> run_gni_validation sample_env (dq ''${slc_gen_path}/x'') = ([], 1, 0, 0)"
  by code_simp

text \<open>
  C1, as amended. Let an expression contain a board variable name, not have been seen
  before, the skip-conditional flag be unset and the slc-gen skip not apply to it. The
  combinations are tried in the order of the list, under the base bindings overlaid with
  the bindings of the combination. If the combinations before some combination all
  resolve to paths that do not validate and that one validates, \<open>checked\<close> grows by the
  number of combinations tried, that one included, and nothing is recorded as missing.
  If the list is not empty and all combinations resolve to paths that do not validate,
  \<open>checked\<close> grows by the length of the list and one verdict with the message
  \<open>(missing for all board combinations)\<close> is appended. If the combinations before some
  combination all resolve to paths that do not validate and that one does not resolve,
  \<open>unresolved\<close> grows by 1, \<open>checked\<close> by the number of combinations before it, the
  later ones are not tried and nothing is recorded as missing.
\<close>

theorem board_search:
  assumes "(raw_expr, context) \<notin> seen st" and "has_board_var e raw_expr"
    and "\<not> skip_conditional e" and "\<not> slc_gen_skipped e raw_expr"
  shows "(board_combos e = pre @ c # post \<and> list_all (combo_fails e raw_expr context) pre
            \<and> combo_ok e raw_expr context c \<longrightarrow>
          process_expr e st (raw_expr, context) =
            st\<lparr>seen := insert (raw_expr, context) (seen st),
               checked := checked st + length pre + 1\<rparr>)
       \<and> (board_combos e \<noteq> [] \<and> list_all (combo_fails e raw_expr context) (board_combos e) \<longrightarrow>
          process_expr e st (raw_expr, context) =
            st\<lparr>seen := insert (raw_expr, context) (seen st),
               checked := checked st + length (board_combos e),
               missing := missing st @
                 [(raw_expr, context, ''(missing for all board combinations)'')]\<rparr>)
       \<and> (board_combos e = pre @ c # post \<and> list_all (combo_fails e raw_expr context) pre
            \<and> combo_resolved e raw_expr c = None \<longrightarrow>
          process_expr e st (raw_expr, context) =
            st\<lparr>seen := insert (raw_expr, context) (seen st),
               checked := checked st + length pre,
               unresolved := unresolved st + 1\<rparr>)"
proof (intro conjI impI)
  assume a: "board_combos e = pre @ c # post \<and> list_all (combo_fails e raw_expr context) pre
            \<and> combo_ok e raw_expr context c"
  then obtain p where "board_loop e raw_expr context (board_combos e)
      (False, None, checked st, unresolved st) = (True, Some p, checked st + length pre + 1, unresolved st)"
    using board_loop_success [of e raw_expr "context" pre c post "checked st" "unresolved st"] by auto
  from process_expr_board [OF assms this]
  show "process_expr e st (raw_expr, context) =
            st\<lparr>seen := insert (raw_expr, context) (seen st),
               checked := checked st + length pre + 1\<rparr>"
    by simp
next
  assume a: "board_combos e \<noteq> [] \<and> list_all (combo_fails e raw_expr context) (board_combos e)"
  then obtain p where "board_loop e raw_expr context (board_combos e)
      (False, None, checked st, unresolved st)
        = (False, Some p, checked st + length (board_combos e), unresolved st)"
    using board_loop_all_fail [of e raw_expr "context" "board_combos e" "checked st" "unresolved st"]
    by auto
  from process_expr_board [OF assms this]
  show "process_expr e st (raw_expr, context) =
            st\<lparr>seen := insert (raw_expr, context) (seen st),
               checked := checked st + length (board_combos e),
               missing := missing st @
                 [(raw_expr, context, ''(missing for all board combinations)'')]\<rparr>"
    by simp
next
  assume a: "board_combos e = pre @ c # post \<and> list_all (combo_fails e raw_expr context) pre
            \<and> combo_resolved e raw_expr c = None"
  then have "board_loop e raw_expr context (board_combos e)
      (False, None, checked st, unresolved st)
        = (False, None, checked st + length pre, unresolved st + 1)"
    using board_loop_unresolved [of e raw_expr "context" pre c post "checked st" "unresolved st"]
    by auto
  from process_expr_board [OF assms this]
  show "process_expr e st (raw_expr, context) =
            st\<lparr>seen := insert (raw_expr, context) (seen st),
               checked := checked st + length pre,
               unresolved := unresolved st + 1\<rparr>"
    by simp
qed

theorem board_search_witness:
  "process_expr sample_env init_state (''${chip_root}/b/${silabs_board}'', ''include_dir'')
     = init_state\<lparr>seen := {(''${chip_root}/b/${silabs_board}'', ''include_dir'')}, checked := 2\<rparr>
   \<and> process_expr sample_env init_state (''${chip_root}/z/${silabs_board}'', ''include_dir'')
     = init_state\<lparr>seen := {(''${chip_root}/z/${silabs_board}'', ''include_dir'')}, checked := 3,
         missing := [(''${chip_root}/z/${silabs_board}'', ''include_dir'',
                      ''(missing for all board combinations)'')]\<rparr>
   \<and> process_expr sample_env init_state (''${chip_root}/q/${silabs_mcu}'', ''include_dir'')
     = init_state\<lparr>seen := {(''${chip_root}/q/${silabs_mcu}'', ''include_dir'')}, checked := 2,
         unresolved := 1\<rparr>"
proof -
  note h = sample_board_exprs
  have a: "process_expr sample_env init_state (''${chip_root}/b/${silabs_board}'', ''include_dir'')
     = init_state\<lparr>seen := insert (''${chip_root}/b/${silabs_board}'', ''include_dir'') (seen init_state),
         checked := checked init_state + length [''B0''] + 1\<rparr>"
    using board_search [of "''${chip_root}/b/${silabs_board}''" "''include_dir''" init_state
        sample_env "[''B0'']" "''B2''" "[''B3'']"] h sample_second_ok
    by simp
  have b: "process_expr sample_env init_state (''${chip_root}/z/${silabs_board}'', ''include_dir'')
     = init_state\<lparr>seen := insert (''${chip_root}/z/${silabs_board}'', ''include_dir'') (seen init_state),
         checked := checked init_state + length (board_combos sample_env),
         missing := missing init_state @ [(''${chip_root}/z/${silabs_board}'', ''include_dir'',
                      ''(missing for all board combinations)'')]\<rparr>"
    using board_search [of "''${chip_root}/z/${silabs_board}''" "''include_dir''" init_state
        sample_env "[''B0'']" "''B2''" "[''B3'']"] h sample_all_fail
    by simp
  have c: "process_expr sample_env init_state (''${chip_root}/q/${silabs_mcu}'', ''include_dir'')
     = init_state\<lparr>seen := insert (''${chip_root}/q/${silabs_mcu}'', ''include_dir'') (seen init_state),
         checked := checked init_state + length [''B0'', ''B2''],
         unresolved := unresolved init_state + 1\<rparr>"
    using board_search [of "''${chip_root}/q/${silabs_mcu}''" "''include_dir''" init_state
        sample_env "[''B0'', ''B2'']" "''B3''" "[]"] h sample_third_unresolved
    by simp
  have s: "seen init_state = {}" "checked init_state = 0" "unresolved init_state = 0"
    "missing init_state = []" "length (board_combos sample_env) = 3"
    by (simp_all add: init_state_def sample_env_def)
  from a b c show ?thesis unfolding s by simp
qed

section \<open>The exit status\<close>

text \<open>
  C7 as stated fails in both directions. With \<open>--help\<close> on the command line the process
  ends with status 0 although the build-description file does not exist. With a
  build-description file that exists and cannot be read the process ends with status 1
  although the file exists and no verdict was recorded.
\<close>

theorem main_exit_status_counterexample:
  "gni_file (sample_input Help No_File) = No_File
   \<and> status (main (sample_input Help No_File)) = 0
   \<and> gni_file (sample_input Parsed Unreadable) = Unreadable
   \<and> all_missing (main (sample_input Parsed Unreadable)) = []
   \<and> status (main (sample_input Parsed Unreadable)) = 1"
  by (simp add: main_def sample_input_def aborted_def)

text \<open>
  C7, as amended. When the command line parses, no exception is raised in any part of
  \<open>main\<close> and no build-description file that exists fails to be read, \<open>main\<close> returns a
  non-zero status exactly when the build-description file does not exist or a missing
  verdict was recorded, and the status is 0 or 1. Without the file it returns 1 at
  once, with nothing extracted or validated; with it, the recorded verdicts are those of
  the first run followed by those of the run on \<open>SiWx917_sdk.gni\<close> when that run takes
  place, and the counts of unresolved and skipped expressions have no part in the
  status.
\<close>

theorem main_exit_status:
  assumes "command_line i = Parsed" and "\<forall>s. \<not> raises i s"
    and "gni_file i \<noteq> Unreadable" and "siwx917_gni_file i \<noteq> Unreadable"
  shows "(status (main i) \<noteq> 0 \<longleftrightarrow> gni_file i = No_File \<or> all_missing (main i) \<noteq> [])
   \<and> (status (main i) = 0 \<or> status (main i) = 1)
   \<and> (gni_file i = No_File \<longrightarrow>
        main i = \<lparr>status = 1, all_missing = [], total_checked = 0, total_unresolved = 0,
                  total_conditional_skipped = 0\<rparr>)
   \<and> (\<forall>content. gni_file i = File_Text content \<longrightarrow>
        all_missing (main i) =
          tag_missing ''efr32_sdk.gni'' (fst (run_gni_validation (efr32_env i) content))
          @ (case siwx917_gni_file i of
               File_Text siwx917_content \<Rightarrow>
                 if \<not> no_siwx917 i \<and> wifi_sdk_root_set i
                 then tag_missing ''SiWx917_sdk.gni''
                        (fst (run_gni_validation (siwx917_env i) siwx917_content))
                 else []
             | _ \<Rightarrow> []))"
  using assms
  by (cases "gni_file i"; cases "siwx917_gni_file i")
     (auto simp: main_def finish_def add_run_def aborted_def Let_def split: prod.splits)

lemma main_sample_unresolved:
  "all_missing (main (sample_input Parsed (File_Text sample_unresolved_gni))) = []
   \<and> total_unresolved (main (sample_input Parsed (File_Text sample_unresolved_gni))) = 1
   \<and> total_conditional_skipped (main (sample_input Parsed (File_Text sample_unresolved_gni))) = 1"
  by code_simp

lemma main_sample_missing:
  "all_missing (main (sample_input Parsed (File_Text sample_dup_gni)))
     = [(''efr32_sdk.gni'', ''${chip_root}/inc'', ''include_dir'',
         ''expected directory, found file: /r/inc'')]"
  by code_simp

lemma sample_input_runs:
  "command_line (sample_input Parsed f) = Parsed \<and> (\<forall>s. \<not> raises (sample_input Parsed f) s)
   \<and> gni_file (sample_input Parsed f) = f
   \<and> siwx917_gni_file (sample_input Parsed f) \<noteq> Unreadable"
  by (simp add: sample_input_def)

theorem main_exit_status_witness:
  "main (sample_input Parsed No_File)
     = \<lparr>status = 1, all_missing = [], total_checked = 0, total_unresolved = 0,
        total_conditional_skipped = 0\<rparr>
   \<and> status (main (sample_input Parsed (File_Text sample_unresolved_gni))) = 0
   \<and> total_unresolved (main (sample_input Parsed (File_Text sample_unresolved_gni))) = 1
   \<and> total_conditional_skipped (main (sample_input Parsed (File_Text sample_unresolved_gni))) = 1
   \<and> status (main (sample_input Parsed (File_Text sample_dup_gni))) = 1"
proof -
  have p: "command_line (sample_input Parsed f) = Parsed" for f
    using sample_input_runs by blast
  have e: "\<forall>s. \<not> raises (sample_input Parsed f) s" for f
    using sample_input_runs by blast
  have g: "gni_file (sample_input Parsed f) = f" for f
    using sample_input_runs by blast
  have u: "siwx917_gni_file (sample_input Parsed f) \<noteq> Unreadable" for f
    using sample_input_runs by blast
  have "gni_file (sample_input Parsed No_File) \<noteq> Unreadable" by (simp add: g)
  from main_exit_status [OF p e this u] g [of No_File]
  have a: "main (sample_input Parsed No_File)
     = \<lparr>status = 1, all_missing = [], total_checked = 0, total_unresolved = 0,
        total_conditional_skipped = 0\<rparr>"
    by blast
  have "gni_file (sample_input Parsed (File_Text sample_unresolved_gni)) \<noteq> Unreadable"
    by (simp add: g)
  from main_exit_status [OF p e this u]
  have "status (main (sample_input Parsed (File_Text sample_unresolved_gni))) \<noteq> 0 \<longleftrightarrow>
          gni_file (sample_input Parsed (File_Text sample_unresolved_gni)) = No_File
          \<or> all_missing (main (sample_input Parsed (File_Text sample_unresolved_gni))) \<noteq> []"
    by blast
  then have b: "status (main (sample_input Parsed (File_Text sample_unresolved_gni))) = 0"
    by (simp add: g main_sample_unresolved)
  have "gni_file (sample_input Parsed (File_Text sample_dup_gni)) \<noteq> Unreadable"
    by (simp add: g)
  note t = main_exit_status [OF p e this u]
  from t have "status (main (sample_input Parsed (File_Text sample_dup_gni))) \<noteq> 0 \<longleftrightarrow>
          gni_file (sample_input Parsed (File_Text sample_dup_gni)) = No_File
          \<or> all_missing (main (sample_input Parsed (File_Text sample_dup_gni))) \<noteq> []"
    by blast
  then have "status (main (sample_input Parsed (File_Text sample_dup_gni))) \<noteq> 0"
    by (simp add: g main_sample_missing)
  moreover from t have "status (main (sample_input Parsed (File_Text sample_dup_gni))) = 0
         \<or> status (main (sample_input Parsed (File_Text sample_dup_gni))) = 1"
    by blast
  ultimately have c: "status (main (sample_input Parsed (File_Text sample_dup_gni))) = 1"
    by blast
  from a b c main_sample_unresolved show ?thesis by simp
qed

end
